theory Spec2Isabelle
  imports Main "HOL-Library.AList"
begin

section \<open>The scrape manager: data model\<close>

text \<open>
  The scrape manager (\<^verbatim>\<open>src/unnamed/part_003\<close>) keeps three in-memory structures:
  \<^verbatim>\<open>jobQueue\<close> (three arrays of job objects), \<^verbatim>\<open>activeJobs\<close> and
  \<^verbatim>\<open>completedJobs\<close> (two JavaScript \<^verbatim>\<open>Map\<close>s from \<^verbatim>\<open>jobId\<close> to job object).
  Job objects are mutable and shared by reference between these structures and the
  running \<^verbatim>\<open>processJob\<close> invocations, so the model has an explicit heap of job
  objects; a reference is an index into it.

  Every function of the module is \<^verbatim>\<open>async\<close>. Between two \<^verbatim>\<open>await\<close>s the code runs
  without interruption; at an \<^verbatim>\<open>await\<close> the invocation is suspended and any other
  invocation may run. The model therefore splits each function at its \<^verbatim>\<open>await\<close>s:
  a suspended invocation is a \<open>task\<close>, and one step of the system resumes one task up
  to its next \<^verbatim>\<open>await\<close>.
\<close>

datatype priority = High | Normal | Low

datatype status = Queued | Processing | Complete | Failed | Cancelled

text \<open>The outcome of an awaited call: a value, or a thrown error with its message.\<close>

datatype 'a result = Returns 'a | Throws string

type_synonym ref = nat

text \<open>
  A job object. \<open>priority\<close> is \<open>None\<close> when the property is missing or is not one of
  the three tier names; \<open>maxPages\<close> is \<open>None\<close> when the property is missing.
  Timestamps are readings of the clock.
\<close>

record job =
  jobId :: string
  domain :: string
  depth :: nat
  priority :: "priority option"
  maxPages :: "nat option"
  status :: status
  progress :: nat
  message :: string
  startedAt :: "nat option"
  completedAt :: "nat option"

record page =
  url :: string
  title :: "string option"

record pageWithContent =
  pwcUrl :: string
  pwcTitle :: "string option"
  content :: string

subsection \<open>The aggregate result\<close>

text \<open>
  The items inside a section (links, articles, images, ISBNs) are opaque to the scrape
  manager; they are strings here. A property that only some of the object literals of
  the source have is an \<open>option\<close>: \<open>None\<close> when the literal has no such key.
\<close>

type_synonym item = string

record siteStructure_t =
  siteTitle :: string
  meta :: "(string \<times> string) list"
  sections :: "item list"

record navigationStructure_t =
  mainNav :: "item list"
  footerNav :: "item list"

record general_t =
  siteStructure :: siteStructure_t
  prominentLinks :: "item list"
  navigationStructure :: navigationStructure_t

record blog_t =
  hasBlog :: bool
  blogUrl :: "string option"
  articles :: "item list"

record images_t =
  allImages :: "item list"
  byCategory :: "(string \<times> item list) list"
  heroImages :: "item list"
  brandImages :: "item list"
  productImages :: "item list option"
  contentImages :: "item list option"
  backgroundImages :: "item list option"
  bannerImages :: "item list option"
  galleryImages :: "item list option"
  socialProofImages :: "item list option"
  teamImages :: "item list option"
  otherImages :: "item list option"

record colors_t =
  primaryColor :: string
  secondaryColors :: "string list"
  palette :: "string list"

record socialMedia_t =
  links :: "(string \<times> item) list"
  socialContent :: "(string \<times> item) list"

record isbn_t =
  isbns :: "item list"
  isbnImages :: "item list"

record aggregateResult =
  resultDomain :: string
  scrapedAt :: nat
  pageCount :: "nat option"
  general :: general_t
  blog :: blog_t
  images :: images_t
  colors :: colors_t
  socialMedia :: "socialMedia_t option"
  isbn :: isbn_t

subsection \<open>External collaborators\<close>

text \<open>
  The repository, the discovery service, the extractors and the socket server are
  imported modules. The model records every call made to them (\<open>calls\<close>, in order)
  and takes what they answer as an input.
\<close>

record discoverOptions =
  optMaxPages :: nat
  bypassCooldown :: bool
  cooldownMinutes :: nat

record extractOptions =
  domainId :: "nat option"
  saveToDatabase :: bool

datatype extractor = EnhancedImage | SocialMedia | Blog | Color | General | Isbn

datatype ext_call =
    GetPendingJobs
  | SaveJob job
  | UpdateJobStatus string status "nat option" "nat option"
  | CanResumeJob string
  | SelectDomainInfo string
  | InsertDomainInfo string
  | DiscoverPages string nat string discoverOptions
  | ExtractPageContent string
  | Extract extractor "pageWithContent list" "extractOptions option"
  | SaveResults string aggregateResult
  | UpdateDomainData nat aggregateResult

text \<open>
  What the external calls of one \<^verbatim>\<open>processJob\<close> invocation answer, one field per
  \<^verbatim>\<open>await\<close> of the function. \<open>selectDomainInfo\<close> is the list of ids of the rows found;
  \<open>extractPageContent e i\<close> answers the call for the page at index \<open>i\<close>, with \<open>None\<close>
  for a missing or empty \<^verbatim>\<open>content\<close>. An extractor that returns yields an object of
  its section (the extractor contract).
\<close>

record job_env =
  updateProcessing :: "unit result"
  canResumeJob :: "bool result"
  selectDomainInfo :: "nat list result"
  insertDomainInfo :: "nat result"
  discoverPages :: "page list result"
  saveResults :: "unit result"
  extractPageContent :: "nat \<Rightarrow> string option result"
  enhancedImageExtractor :: "images_t result"
  socialMediaExtractor :: "socialMedia_t result"
  blogExtractor :: "blog_t result"
  colorExtractor :: "colors_t result"
  generalExtractor :: "general_t result"
  isbnExtractor :: "isbn_t result"
  storeDomainData :: "unit result"
  updateComplete :: "unit result"

text \<open>\<^verbatim>\<open>global.io\<close>: absent, working, or throwing on \<^verbatim>\<open>emit\<close>.\<close>

datatype publisher = NoIO | IOWorks | IOThrows string

record payload =
  pJobId :: string
  pStatus :: status
  pProgress :: nat
  pMessage :: string

text \<open>What an exported function returned or threw to its caller.\<close>

datatype reply =
    QueueJobReturned string status string
  | QueueJobThrew string
  | CancelJobReturned bool string
  | InitReturned bool

subsection \<open>Suspended invocations\<close>

text \<open>
  The \<^verbatim>\<open>await\<close>s of \<^verbatim>\<open>processJob\<close>, by source line: 149, 157, 178, 186, 199, 272, 282,
  321 (once per page), 363, 378, 388, 398, 408, 418, 482, 500.
\<close>

datatype pc =
    AwaitUpdateProcessing
  | AwaitCanResume
  | AwaitSelectDomain
  | AwaitInsertDomain
  | AwaitDiscover
  | AwaitSaveMinimal
  | AwaitUpdateMinimal
  | AwaitPageContent nat
  | AwaitImages
  | AwaitSocial
  | AwaitBlog
  | AwaitColors
  | AwaitGeneral
  | AwaitIsbn
  | AwaitStoreData
  | AwaitUpdateComplete

datatype task =
    Worker ref pc
  | QueueCont ref "unit result"
  | CancelActiveCont string ref "bool result"
  | CancelQueuedCont "bool result"
  | CancelUnknownCont "bool result"
  | InitCont "job list result"

subsection \<open>The state\<close>

text \<open>
  \<open>high\<close>, \<open>normal\<close>, \<open>low\<close> are the three arrays of \<^verbatim>\<open>jobQueue\<close>. The two maps are
  association lists in insertion order. \<open>calls\<close>, \<open>emitted\<close>, \<open>errorLog\<close>,
  \<open>replies\<close>, \<open>unhandled\<close> and \<open>dispatched\<close> are what an observer sees: the calls made
  to the collaborators, the events delivered to the socket server, the lines given to
  \<^verbatim>\<open>logger.error\<close>, the results of the exported functions, the rejections of
  \<^verbatim>\<open>processJob\<close> promises (which nothing awaits), and the jobs handed to
  \<^verbatim>\<open>processJob\<close>, in order.
\<close>

record sched =
  now :: nat
  io :: publisher
  heap :: "job list"
  high :: "ref list"
  normal :: "ref list"
  low :: "ref list"
  activeJobs :: "(string \<times> ref) list"
  completedJobs :: "(string \<times> ref) list"
  tasks :: "task list"
  calls :: "ext_call list"
  emitted :: "(string \<times> string \<times> payload) list"
  errorLog :: "string list"
  replies :: "reply list"
  unhandled :: "string list"
  dispatched :: "ref list"

definition initial :: "publisher \<Rightarrow> sched" where
  "initial p = \<lparr>now = 0, io = p, heap = [], high = [], normal = [], low = [],
     activeJobs = [], completedJobs = [], tasks = [], calls = [], emitted = [],
     errorLog = [], replies = [], unhandled = [], dispatched = []\<rparr>"

section \<open>The operations\<close>

subsection \<open>Small steps on the state\<close>

definition job_at :: "sched \<Rightarrow> ref \<Rightarrow> job" where
  "job_at s r = heap s ! r"

definition upd_job :: "ref \<Rightarrow> (job \<Rightarrow> job) \<Rightarrow> sched \<Rightarrow> sched" where
  "upd_job r f s = s\<lparr>heap := (heap s)[r := f (heap s ! r)]\<rparr>"

definition call :: "ext_call \<Rightarrow> sched \<Rightarrow> sched" where
  "call c s = s\<lparr>calls := calls s @ [c]\<rparr>"

definition logError :: "string \<Rightarrow> sched \<Rightarrow> sched" where
  "logError m s = s\<lparr>errorLog := errorLog s @ [m]\<rparr>"

definition reply :: "reply \<Rightarrow> sched \<Rightarrow> sched" where
  "reply x s = s\<lparr>replies := replies s @ [x]\<rparr>"

definition suspend :: "task \<Rightarrow> sched \<Rightarrow> sched" where
  "suspend t s = s\<lparr>tasks := tasks s @ [t]\<rparr>"

text \<open>Decimal digits of a number, for the template strings.\<close>

fun show_nat :: "nat \<Rightarrow> string" where
  "show_nat n = (if n < 10 then [''0123456789'' ! n]
                 else show_nat (n div 10) @ [''0123456789'' ! (n mod 10)])"

declare show_nat.simps [simp del]

text \<open>
  \<^verbatim>\<open>emitSocketEvent\<close> (lines 73--81): emits when \<^verbatim>\<open>global.io\<close> is set; an error thrown
  by the emit is caught and logged.
\<close>

definition emitSocketEvent :: "string \<Rightarrow> string \<Rightarrow> payload \<Rightarrow> sched \<Rightarrow> sched" where
  "emitSocketEvent room event data s =
     (case io s of
        NoIO \<Rightarrow> s
      | IOWorks \<Rightarrow> s\<lparr>emitted := emitted s @ [(room, event, data)]\<rparr>
      | IOThrows m \<Rightarrow> logError (''Error emitting socket event: '' @ m) s)"

text \<open>
  The call that follows every progress update of \<^verbatim>\<open>processJob\<close>:
  \<^verbatim>\<open>emitSocketEvent(`job-${job.jobId}`, 'job-update', {jobId, status, progress, message})\<close>.
  The per-page update (lines 328--333) passes its own message, the others
  \<^verbatim>\<open>job.message\<close>.
\<close>

definition notifyWith :: "ref \<Rightarrow> string \<Rightarrow> sched \<Rightarrow> sched" where
  "notifyWith r m s =
     (let j = heap s ! r in
      emitSocketEvent (''job-'' @ jobId j) ''job-update''
        \<lparr>pJobId = jobId j, pStatus = status j, pProgress = progress j, pMessage = m\<rparr> s)"

definition notify :: "ref \<Rightarrow> sched \<Rightarrow> sched" where
  "notify r s = notifyWith r (message (heap s ! r)) s"

text \<open>\<^verbatim>\<open>Map.prototype.set\<close>, \<^verbatim>\<open>delete\<close>, \<^verbatim>\<open>has\<close>, \<^verbatim>\<open>get\<close> and \<^verbatim>\<open>size\<close>.\<close>

definition map_set :: "string \<Rightarrow> ref \<Rightarrow> (string \<times> ref) list \<Rightarrow> (string \<times> ref) list" where
  "map_set k v m = AList.update k v m"

definition map_delete :: "string \<Rightarrow> (string \<times> ref) list \<Rightarrow> (string \<times> ref) list" where
  "map_delete k m = AList.delete k m"

definition map_has :: "string \<Rightarrow> (string \<times> ref) list \<Rightarrow> bool" where
  "map_has k m = (map_of m k \<noteq> None)"

definition map_size :: "(string \<times> ref) list \<Rightarrow> nat" where
  "map_size m = length m"

subsection \<open>Dispatch\<close>

text \<open>
  The part of \<^verbatim>\<open>processJob\<close> before its first \<^verbatim>\<open>await\<close> (lines 139--149). It runs
  inside the caller, \<^verbatim>\<open>processNextJob\<close>, which does not await the promise.
\<close>

definition processJob_start :: "ref \<Rightarrow> sched \<Rightarrow> sched" where
  "processJob_start r s =
     (let s1 = upd_job r (\<lambda>j. j\<lparr>status := Processing, startedAt := Some (now s)\<rparr>) s;
          j = heap s1 ! r;
          s2 = s1\<lparr>activeJobs := map_set (jobId j) r (activeJobs s1)\<rparr>;
          s3 = call (UpdateJobStatus (jobId j) Processing (startedAt j) None) s2
      in suspend (Worker r AwaitUpdateProcessing) (s3\<lparr>dispatched := dispatched s3 @ [r]\<rparr>))"

text \<open>Lines 116--124: the next job, high tier first, removed from the front of its tier.\<close>

definition shiftNext :: "sched \<Rightarrow> (ref \<times> sched) option" where
  "shiftNext s =
     (case high s of
        r # rs \<Rightarrow> Some (r, s\<lparr>high := rs\<rparr>)
      | [] \<Rightarrow>
          (case normal s of
             r # rs \<Rightarrow> Some (r, s\<lparr>normal := rs\<rparr>)
           | [] \<Rightarrow>
               (case low s of
                  r # rs \<Rightarrow> Some (r, s\<lparr>low := rs\<rparr>)
                | [] \<Rightarrow> None)))"

definition queued :: "sched \<Rightarrow> ref list" where
  "queued s = high s @ normal s @ low s"

lemma processJob_start_queued [simp]: "queued (processJob_start r s) = queued s"
  by (simp add: processJob_start_def queued_def Let_def suspend_def call_def upd_job_def)

lemma shiftNext_queued: "shiftNext s = Some (r, s') \<Longrightarrow> queued s = r # queued s'"
  by (auto simp: shiftNext_def queued_def split: list.splits)

text \<open>
  \<^verbatim>\<open>processNextJob\<close> (lines 109--135). The limit \<^verbatim>\<open>MAX_CONCURRENT_JOBS\<close> is read from
  the environment when the module is loaded (5 when unset); it is a parameter here.
\<close>

function processNextJob :: "nat \<Rightarrow> sched \<Rightarrow> sched" where
  "processNextJob lim s =
     (if map_size (activeJobs s) \<ge> lim then s
      else
        (case shiftNext s of
           None \<Rightarrow> s
         | Some (nextJob, s1) \<Rightarrow>
             (let s2 = processJob_start nextJob s1
              in if map_size (activeJobs s2) < lim then processNextJob lim s2 else s2)))"
  by pat_completeness auto
termination
  by (relation "measure (\<lambda>(lim, s). length (queued s))")
     (auto dest: shiftNext_queued)

declare processNextJob.simps [simp del]

subsection \<open>The pipeline of one job\<close>

text \<open>Lines 199--203: the options \<^verbatim>\<open>processJob\<close> passes to discovery.\<close>

definition discoverOptionsFor :: "job \<Rightarrow> discoverOptions" where
  "discoverOptionsFor j =
     \<lparr>optMaxPages = (case maxPages j of None \<Rightarrow> 25 | Some n \<Rightarrow> if n = 0 then 25 else n),
      bypassCooldown = True,
      cooldownMinutes = 5\<rparr>"

definition startDiscover :: "ref \<Rightarrow> sched \<Rightarrow> sched" where
  "startDiscover r s =
     (let j = heap s ! r
      in call (DiscoverPages (domain j) (depth j) (jobId j) (discoverOptionsFor j)) s)"

text \<open>Lines 175--196: \<^verbatim>\<open>domainInfoId\<close> stays \<^verbatim>\<open>null\<close> when a query throws.\<close>

definition domainInfoId :: "job_env \<Rightarrow> nat option" where
  "domainInfoId e =
     (case selectDomainInfo e of
        Throws _ \<Rightarrow> None
      | Returns (i # _) \<Rightarrow> Some i
      | Returns [] \<Rightarrow> (case insertDomainInfo e of Throws _ \<Rightarrow> None | Returns i \<Rightarrow> Some i))"

definition pagesOf :: "job_env \<Rightarrow> page list" where
  "pagesOf e = (case discoverPages e of Returns ps \<Rightarrow> ps | Throws _ \<Rightarrow> [])"

text \<open>Lines 349--353.\<close>

definition pagesWithContent :: "job_env \<Rightarrow> pageWithContent list" where
  "pagesWithContent e =
     map (\<lambda>(index, p).
            \<lparr>pwcUrl = url p, pwcTitle = title p,
             content = (case extractPageContent e index of
                          Returns (Some c) \<Rightarrow> c
                        | _ \<Rightarrow> [])\<rparr>)
         (enumerate 0 (pagesOf e))"

text \<open>
  \<^verbatim>\<open>let x = null; try { x = await extractor.extract(...) } catch (error) { ... }\<close>
  leaves \<^verbatim>\<open>null\<close> in \<^verbatim>\<open>x\<close> when the call throws; \<^verbatim>\<open>x || d\<close> is then \<^verbatim>\<open>d\<close>.
\<close>

definition caught :: "'a result \<Rightarrow> 'a option" where
  "caught x = (case x of Returns v \<Rightarrow> Some v | Throws _ \<Rightarrow> None)"

definition orDefault :: "'a option \<Rightarrow> 'a \<Rightarrow> 'a" where
  "orDefault x d = (case x of Some v \<Rightarrow> v | None \<Rightarrow> d)"

text \<open>The fallback literals of lines 441--476.\<close>

definition defaultGeneral :: "string \<Rightarrow> general_t" where
  "defaultGeneral d =
     \<lparr>siteStructure = \<lparr>siteTitle = d, meta = [], sections = []\<rparr>,
      prominentLinks = [],
      navigationStructure = \<lparr>mainNav = [], footerNav = []\<rparr>\<rparr>"

definition defaultBlog :: blog_t where
  "defaultBlog = \<lparr>hasBlog = False, blogUrl = None, articles = []\<rparr>"

definition defaultImages :: images_t where
  "defaultImages =
     \<lparr>allImages = [], byCategory = [], heroImages = [], brandImages = [],
      productImages = None, contentImages = None, backgroundImages = None,
      bannerImages = None, galleryImages = None, socialProofImages = None,
      teamImages = None, otherImages = None\<rparr>"

definition defaultColors :: colors_t where
  "defaultColors =
     \<lparr>primaryColor = ''#4285f4'',
      secondaryColors = [''#ea4335'', ''#fbbc05'', ''#34a853''],
      palette = [''#4285f4'', ''#ea4335'', ''#fbbc05'', ''#34a853'', ''#ffffff'', ''#000000'']\<rparr>"

definition defaultSocialMedia :: socialMedia_t where
  "defaultSocialMedia = \<lparr>links = [], socialContent = []\<rparr>"

definition defaultIsbn :: isbn_t where
  "defaultIsbn = \<lparr>isbns = [], isbnImages = []\<rparr>"

text \<open>
  Lines 437--477: the results of a job with pages for the domain \<open>d\<close> (\<^verbatim>\<open>job.domain\<close>),
  at clock reading \<open>t\<close>.
\<close>

definition buildResults :: "string \<Rightarrow> nat \<Rightarrow> job_env \<Rightarrow> aggregateResult" where
  "buildResults d t e =
     \<lparr>resultDomain = d,
      scrapedAt = t,
      pageCount = Some (length (pagesOf e)),
      general = orDefault (caught (generalExtractor e)) (defaultGeneral d),
      blog = orDefault (caught (blogExtractor e)) defaultBlog,
      images = orDefault (caught (enhancedImageExtractor e)) defaultImages,
      colors = orDefault (caught (colorExtractor e)) defaultColors,
      socialMedia = Some (orDefault (caught (socialMediaExtractor e)) defaultSocialMedia),
      isbn = orDefault (caught (isbnExtractor e)) defaultIsbn\<rparr>"

text \<open>Lines 211--257: the results of a job without pages.\<close>

definition minimalResults :: "string \<Rightarrow> nat \<Rightarrow> aggregateResult" where
  "minimalResults d t =
     \<lparr>resultDomain = d,
      scrapedAt = t,
      pageCount = None,
      general =
        \<lparr>siteStructure =
           \<lparr>siteTitle = d @ '' Website'',
            meta = [(''description'', ''Website for '' @ d), (''keywords'', d)],
            sections = []\<rparr>,
         prominentLinks = [],
         navigationStructure = \<lparr>mainNav = [], footerNav = []\<rparr>\<rparr>,
      blog = \<lparr>hasBlog = False, blogUrl = None, articles = []\<rparr>,
      images =
        \<lparr>allImages = [], byCategory = [], heroImages = [], brandImages = [],
         productImages = Some [], contentImages = Some [], backgroundImages = Some [],
         bannerImages = Some [], galleryImages = Some [], socialProofImages = Some [],
         teamImages = Some [], otherImages = Some []\<rparr>,
      colors =
        \<lparr>primaryColor = ''#4285f4'',
         secondaryColors = [''#ea4335'', ''#fbbc05'', ''#34a853''],
         palette = [''#4285f4'', ''#ea4335'', ''#fbbc05'', ''#34a853'', ''#ffffff'', ''#000000'']\<rparr>,
      socialMedia = None,
      isbn = \<lparr>isbns = [], isbnImages = []\<rparr>\<rparr>"

text \<open>A progress update followed by its notification.\<close>

definition setProgress :: "nat \<Rightarrow> string \<Rightarrow> ref \<Rightarrow> sched \<Rightarrow> sched" where
  "setProgress p m r s = notify r (upd_job r (\<lambda>j. j\<lparr>progress := p, message := m\<rparr>) s)"

text \<open>
  The outer \<^verbatim>\<open>catch\<close> (lines 516--519): the error is logged and thrown again. The
  promise of \<^verbatim>\<open>processJob\<close> is awaited by nobody, so the rejection is unhandled.
\<close>

definition processJob_catch :: "string \<Rightarrow> sched \<Rightarrow> sched" where
  "processJob_catch m s =
     (logError (''[JOB] Error processing job: '' @ m) s)
       \<lparr>unhandled := unhandled s @ [''Failed to process job: '' @ m]\<rparr>"

text \<open>The inner \<^verbatim>\<open>catch\<close> of the branch without pages (lines 298--301).\<close>

definition minimal_catch :: "string \<Rightarrow> sched \<Rightarrow> sched" where
  "minimal_catch m s =
     processJob_catch (''Failed to save minimal results: '' @ m)
       (logError (''[JOB] Error saving minimal results: '' @ m) s)"

text \<open>Lines 276--282 and 494--500: the job is marked complete, the store is told.\<close>

definition completeJob :: "string \<Rightarrow> ref \<Rightarrow> sched \<Rightarrow> sched" where
  "completeJob m r s =
     (let s1 = upd_job r
                 (\<lambda>j. j\<lparr>status := Complete, progress := 100, message := m,
                        completedAt := Some (now s)\<rparr>) s;
          j = heap s1 ! r
      in call (UpdateJobStatus (jobId j) Complete (startedAt j) (completedAt j)) s1)"

text \<open>Lines 285--297 and 503--515, after the store has answered.\<close>

definition finishJob :: "nat \<Rightarrow> ref \<Rightarrow> sched \<Rightarrow> sched" where
  "finishJob lim r s =
     (let s1 = notify r s;
          j = heap s1 ! r;
          s2 = s1\<lparr>activeJobs := map_delete (jobId j) (activeJobs s1)\<rparr>;
          s3 = s2\<lparr>completedJobs := map_set (jobId j) r (completedJobs s2)\<rparr>
      in processNextJob lim s3)"

text \<open>The \<^verbatim>\<open>catch\<close> block of an extractor call or a store call: one log line.\<close>

definition logThrown :: "string \<Rightarrow> 'a result \<Rightarrow> sched \<Rightarrow> sched" where
  "logThrown what x s =
     (case x of Returns _ \<Rightarrow> s | Throws m \<Rightarrow> logError (what @ m) s)"

definition startExtractor :: "extractor \<Rightarrow> job_env \<Rightarrow> sched \<Rightarrow> sched" where
  "startExtractor x e s = call (Extract x (pagesWithContent e) None) s"

text \<open>The message of the per-page event (line 332).\<close>

definition pageMessage :: "nat \<Rightarrow> nat \<Rightarrow> string" where
  "pageMessage k n =
     ''Extracted content from '' @ show_nat k @ '' of '' @ show_nat n @ '' pages''"

text \<open>
  \<open>resume_pc lim e r pc s\<close> runs the invocation of \<^verbatim>\<open>processJob\<close> for the job at
  \<open>r\<close> from the \<^verbatim>\<open>await\<close> \<open>pc\<close> to the next one, or to its end (\<open>None\<close>). The pages
  loop (lines 318--334) sets the progress to
  \<^verbatim>\<open>Math.min(30 + Math.floor((k / n) * 30), 60)\<close> after the \<open>k\<close>-th of \<open>n\<close> pages.
  The image extractor's \<^verbatim>\<open>catch\<close> writes two log lines, the message and the stack.
\<close>

fun resume_pc :: "nat \<Rightarrow> job_env \<Rightarrow> ref \<Rightarrow> pc \<Rightarrow> sched \<Rightarrow> pc option \<times> sched" where
  "resume_pc lim e r AwaitUpdateProcessing s =
     (let s1 = logThrown ''Error updating job status: '' (updateProcessing e) s
      in (Some AwaitCanResume, call (CanResumeJob (jobId (heap s1 ! r))) s1))"
| "resume_pc lim e r AwaitCanResume s =
     (case canResumeJob e of
        Throws m \<Rightarrow> (None, processJob_catch m s)
      | Returns _ \<Rightarrow>
          (let s1 = setProgress 10 ''Discovering pages'' r s
           in (Some AwaitSelectDomain, call (SelectDomainInfo (domain (heap s1 ! r))) s1)))"
| "resume_pc lim e r AwaitSelectDomain s =
     (case selectDomainInfo e of
        Throws m \<Rightarrow>
          (Some AwaitDiscover,
           startDiscover r (logError (''[JOB] Error creating domain_info entry: '' @ m) s))
      | Returns [] \<Rightarrow> (Some AwaitInsertDomain, call (InsertDomainInfo (domain (heap s ! r))) s)
      | Returns (i # _) \<Rightarrow> (Some AwaitDiscover, startDiscover r s))"
| "resume_pc lim e r AwaitInsertDomain s =
     (Some AwaitDiscover,
      startDiscover r
        (logThrown ''[JOB] Error creating domain_info entry: '' (insertDomainInfo e) s))"
| "resume_pc lim e r AwaitDiscover s =
     (case discoverPages e of
        Throws m \<Rightarrow> (None, processJob_catch m s)
      | Returns pages \<Rightarrow>
          (if pages = [] then
             (let j = heap s ! r;
                  minimal = minimalResults (domain j) (now s);
                  s1 = setProgress 90 ''Saving minimal results'' r s
              in (Some AwaitSaveMinimal, call (SaveResults (jobId j) minimal) s1))
           else
             (let s1 = setProgress 30 ''Extracting content'' r s
              in (Some (AwaitPageContent 0), call (ExtractPageContent (url (pages ! 0))) s1))))"
| "resume_pc lim e r AwaitSaveMinimal s =
     (case saveResults e of
        Throws m \<Rightarrow> (None, minimal_catch m s)
      | Returns _ \<Rightarrow>
          (Some AwaitUpdateMinimal, completeJob ''Scrape completed with minimal results'' r s))"
| "resume_pc lim e r AwaitUpdateMinimal s =
     (case updateComplete e of
        Throws m \<Rightarrow> (None, minimal_catch m s)
      | Returns _ \<Rightarrow> (None, finishJob lim r s))"
| "resume_pc lim e r (AwaitPageContent i) s =
     (case extractPageContent e i of
        Throws m \<Rightarrow> (None, processJob_catch m s)
      | Returns _ \<Rightarrow>
          (let pages = pagesOf e;
               n = length pages;
               k = i + 1;
               s1 = upd_job r (\<lambda>j. j\<lparr>progress := min (30 + (k * 30) div n) 60\<rparr>) s;
               s2 = notifyWith r (pageMessage k n) s1
           in if k < n then
                (Some (AwaitPageContent k), call (ExtractPageContent (url (pages ! k))) s2)
              else
                (let s3 = setProgress 60 ''Extracting detailed information'' r s2
                 in (Some AwaitImages,
                     call (Extract EnhancedImage (pagesWithContent e)
                             (Some \<lparr>domainId = domainInfoId e, saveToDatabase = True\<rparr>)) s3))))"
| "resume_pc lim e r AwaitImages s =
     (let s1 = (case enhancedImageExtractor e of
                  Returns _ \<Rightarrow> s
                | Throws m \<Rightarrow>
                    logError ''stack''
                      (logError (''[JOB] Error extracting enhanced image data: '' @ m) s))
      in (Some AwaitSocial, startExtractor SocialMedia e s1))"
| "resume_pc lim e r AwaitSocial s =
     (Some AwaitBlog,
      startExtractor Blog e
        (logThrown ''[JOB] Error extracting social media data: '' (socialMediaExtractor e) s))"
| "resume_pc lim e r AwaitBlog s =
     (Some AwaitColors,
      startExtractor Color e
        (logThrown ''[JOB] Error extracting blog data: '' (blogExtractor e) s))"
| "resume_pc lim e r AwaitColors s =
     (Some AwaitGeneral,
      startExtractor General e
        (logThrown ''[JOB] Error extracting color data: '' (colorExtractor e) s))"
| "resume_pc lim e r AwaitGeneral s =
     (Some AwaitIsbn,
      startExtractor Isbn e
        (logThrown ''[JOB] Error extracting general data: '' (generalExtractor e) s))"
| "resume_pc lim e r AwaitIsbn s =
     (let s1 = logThrown ''[JOB] Error extracting ISBN data: '' (isbnExtractor e) s;
          s2 = setProgress 80 ''Building final results'' r s1;
          results = buildResults (domain (heap s2 ! r)) (now s2) e
      in (case domainInfoId e of
            Some i \<Rightarrow>
              (if i \<noteq> 0 then (Some AwaitStoreData, call (UpdateDomainData i results) s2)
               else (Some AwaitUpdateComplete, completeJob ''Scrape completed'' r s2))
          | None \<Rightarrow> (Some AwaitUpdateComplete, completeJob ''Scrape completed'' r s2)))"
| "resume_pc lim e r AwaitStoreData s =
     (Some AwaitUpdateComplete,
      completeJob ''Scrape completed'' r
        (logThrown ''[JOB] Error storing website data: '' (storeDomainData e) s))"
| "resume_pc lim e r AwaitUpdateComplete s =
     (case updateComplete e of
        Throws m \<Rightarrow> (None, processJob_catch m s)
      | Returns _ \<Rightarrow> (None, finishJob lim r s))"






subsection \<open>The exported functions\<close>

definition push :: "priority \<Rightarrow> ref \<Rightarrow> sched \<Rightarrow> sched" where
  "push p r s =
     (case p of
        High \<Rightarrow> s\<lparr>high := high s @ [r]\<rparr>
      | Normal \<Rightarrow> s\<lparr>normal := normal s @ [r]\<rparr>
      | Low \<Rightarrow> s\<lparr>low := low s @ [r]\<rparr>)"

text \<open>
  \<^verbatim>\<open>queueJob\<close> (lines 84--106) up to its \<^verbatim>\<open>await\<close>. The job object is the caller's;
  it enters the heap here. \<open>resp\<close> is what \<^verbatim>\<open>saveJob\<close> will answer.
\<close>

definition queueJob_call :: "job \<Rightarrow> unit result \<Rightarrow> sched \<Rightarrow> sched" where
  "queueJob_call j resp s =
     (let r = length (heap s);
          s1 = s\<lparr>heap := heap s @ [j]\<rparr>
      in suspend (QueueCont r resp) (call (SaveJob j) s1))"

text \<open>
  \<^verbatim>\<open>queueJob\<close> after the \<^verbatim>\<open>await\<close>. With a priority that names no tier,
  \<^verbatim>\<open>jobQueue[job.priority]\<close> is \<^verbatim>\<open>undefined\<close> and \<^verbatim>\<open>push\<close> on it throws inside the
  \<^verbatim>\<open>try\<close>.
\<close>

definition queueJob_cont :: "nat \<Rightarrow> ref \<Rightarrow> unit result \<Rightarrow> sched \<Rightarrow> sched" where
  "queueJob_cont lim r resp s =
     (case resp of
        Throws m \<Rightarrow>
          reply (QueueJobThrew (''Failed to queue job: '' @ m))
            (logError (''Error queueing job: '' @ m) s)
      | Returns _ \<Rightarrow>
          (case priority (heap s ! r) of
             None \<Rightarrow>
               reply (QueueJobThrew (''Failed to queue job: Cannot read properties of undefined''))
                 (logError ''Error queueing job: Cannot read properties of undefined'' s)
           | Some p \<Rightarrow>
               (let s1 = push p r s;
                    s2 = (if map_size (activeJobs s1) < lim then processNextJob lim s1 else s1);
                    j = heap s2 ! r
                in reply (QueueJobReturned (jobId j) (status j) ''30s'') s2)))"

text \<open>\<^verbatim>\<open>Array.prototype.findIndex\<close> (\<open>None\<close> for \<open>-1\<close>) and \<^verbatim>\<open>splice(index, 1)\<close>.\<close>

fun findIndex :: "('a \<Rightarrow> bool) \<Rightarrow> 'a list \<Rightarrow> nat option" where
  "findIndex P [] = None"
| "findIndex P (x # xs) = (if P x then Some 0 else map_option Suc (findIndex P xs))"

definition splice1 :: "nat \<Rightarrow> 'a list \<Rightarrow> 'a list" where
  "splice1 i xs = take i xs @ drop (Suc i) xs"

text \<open>Lines 574--582, for a job found in a tier (already spliced out in \<open>s\<close>).\<close>

definition cancelFound :: "ref \<Rightarrow> bool result \<Rightarrow> sched \<Rightarrow> sched" where
  "cancelFound r resp s =
     suspend (CancelQueuedCont resp)
       (call (UpdateJobStatus (jobId (heap s ! r)) Cancelled None (Some (now s))) s)"

text \<open>
  \<^verbatim>\<open>cancelJob\<close> (lines 544--598) up to its \<^verbatim>\<open>await\<close>; \<open>resp\<close> is what
  \<^verbatim>\<open>updateJobStatus\<close> will answer.
\<close>

definition cancelJob_call :: "string \<Rightarrow> bool result \<Rightarrow> sched \<Rightarrow> sched" where
  "cancelJob_call jid resp s =
     (case map_of (activeJobs s) jid of
        Some r \<Rightarrow>
          (let s1 = upd_job r
                      (\<lambda>j. j\<lparr>status := Cancelled, progress := 0,
                             message := ''Job cancelled by user'',
                             completedAt := Some (now s)\<rparr>) s;
               j = heap s1 ! r
           in suspend (CancelActiveCont jid r resp)
                (call (UpdateJobStatus (jobId j) Cancelled (startedAt j) (completedAt j)) s1))
      | None \<Rightarrow>
          (let P = (\<lambda>r. jobId (heap s ! r) = jid) in
           case findIndex P (high s) of
             Some i \<Rightarrow> cancelFound (high s ! i) resp (s\<lparr>high := splice1 i (high s)\<rparr>)
           | None \<Rightarrow>
               (case findIndex P (normal s) of
                  Some i \<Rightarrow> cancelFound (normal s ! i) resp (s\<lparr>normal := splice1 i (normal s)\<rparr>)
                | None \<Rightarrow>
                    (case findIndex P (low s) of
                       Some i \<Rightarrow> cancelFound (low s ! i) resp (s\<lparr>low := splice1 i (low s)\<rparr>)
                     | None \<Rightarrow>
                         suspend (CancelUnknownCont resp)
                           (call (UpdateJobStatus jid Cancelled None (Some (now s))) s)))))"

definition cancelJob_catch :: "string \<Rightarrow> sched \<Rightarrow> sched" where
  "cancelJob_catch m s =
     reply (CancelJobReturned False (''Error cancelling job: '' @ m))
       (logError (''Error cancelling job: '' @ m) s)"

text \<open>\<^verbatim>\<open>cancelJob\<close> after the \<^verbatim>\<open>await\<close> of line 557 (the job was active).\<close>

definition cancelJob_cont :: "nat \<Rightarrow> string \<Rightarrow> ref \<Rightarrow> bool result \<Rightarrow> sched \<Rightarrow> sched" where
  "cancelJob_cont lim jid r resp s =
     (case resp of
        Throws m \<Rightarrow> cancelJob_catch m s
      | Returns _ \<Rightarrow>
          (let s1 = s\<lparr>activeJobs := map_delete jid (activeJobs s)\<rparr>;
               s2 = s1\<lparr>completedJobs := map_set jid r (completedJobs s1)\<rparr>;
               s3 = processNextJob lim s2
           in reply (CancelJobReturned True ''Job cancelled successfully'') s3))"

text \<open>After the \<^verbatim>\<open>await\<close> of line 580 (the job was queued) and of line 587 (unknown).\<close>

definition cancelQueued_cont :: "bool result \<Rightarrow> sched \<Rightarrow> sched" where
  "cancelQueued_cont resp s =
     (case resp of
        Throws m \<Rightarrow> cancelJob_catch m s
      | Returns _ \<Rightarrow> reply (CancelJobReturned True ''Job cancelled successfully'') s)"

definition cancelUnknown_cont :: "bool result \<Rightarrow> sched \<Rightarrow> sched" where
  "cancelUnknown_cont resp s =
     (case resp of
        Throws m \<Rightarrow> cancelJob_catch m s
      | Returns b \<Rightarrow>
          (if b then reply (CancelJobReturned True ''Job cancelled successfully'') s
           else reply (CancelJobReturned False ''Job not found'') s))"

text \<open>
  \<^verbatim>\<open>init\<close> (lines 36--70). A pending job read as \<^verbatim>\<open>processing\<close> is reset to
  \<^verbatim>\<open>queued\<close>; a missing or unknown priority counts as \<^verbatim>\<open>normal\<close>.
\<close>

definition init_call :: "job list result \<Rightarrow> sched \<Rightarrow> sched" where
  "init_call resp s = suspend (InitCont resp) (call GetPendingJobs s)"

definition enqueuePending :: "sched \<Rightarrow> job \<Rightarrow> sched" where
  "enqueuePending s j =
     (let j1 = (if status j = Processing then j\<lparr>status := Queued\<rparr> else j);
          p = (case priority j1 of Some p \<Rightarrow> p | None \<Rightarrow> Normal);
          r = length (heap s)
      in push p r (s\<lparr>heap := heap s @ [j1]\<rparr>))"

definition init_cont :: "nat \<Rightarrow> job list result \<Rightarrow> sched \<Rightarrow> sched" where
  "init_cont lim resp s =
     (case resp of
        Returns pendingJobs \<Rightarrow>
          reply (InitReturned True) (processNextJob lim (foldl enqueuePending s pendingJobs))
      | Throws m \<Rightarrow>
          reply (InitReturned False)
            (processNextJob lim (logError (''Error initializing scrape manager: '' @ m) s)))"


subsection \<open>The system\<close>

text \<open>
  An event is a call of an exported function, the resumption of the \<open>k\<close>-th suspended
  invocation, a change of \<^verbatim>\<open>global.io\<close>, or the passing of time. \<open>env r\<close> is what the
  collaborators answer to the invocation of \<^verbatim>\<open>processJob\<close> for the job at \<open>r\<close>.
\<close>

datatype event =
    CallInit "job list result"
  | CallQueueJob job "unit result"
  | CallCancelJob string "bool result"
  | Resume nat
  | SetIO publisher
  | Tick

definition run_task :: "nat \<Rightarrow> (ref \<Rightarrow> job_env) \<Rightarrow> task \<Rightarrow> sched \<Rightarrow> sched" where
  "run_task lim env t s =
     (case t of
        Worker r pc \<Rightarrow>
          (case resume_pc lim (env r) r pc s of
             (None, s') \<Rightarrow> s'
           | (Some pc', s') \<Rightarrow> suspend (Worker r pc') s')
      | QueueCont r resp \<Rightarrow> queueJob_cont lim r resp s
      | CancelActiveCont jid r resp \<Rightarrow> cancelJob_cont lim jid r resp s
      | CancelQueuedCont resp \<Rightarrow> cancelQueued_cont resp s
      | CancelUnknownCont resp \<Rightarrow> cancelUnknown_cont resp s
      | InitCont resp \<Rightarrow> init_cont lim resp s)"

definition step :: "nat \<Rightarrow> (ref \<Rightarrow> job_env) \<Rightarrow> sched \<Rightarrow> event \<Rightarrow> sched" where
  "step lim env s ev =
     (case ev of
        CallInit resp \<Rightarrow> init_call resp s
      | CallQueueJob j resp \<Rightarrow> queueJob_call j resp s
      | CallCancelJob jid resp \<Rightarrow> cancelJob_call jid resp s
      | Resume k \<Rightarrow>
          (if k < length (tasks s)
           then run_task lim env (tasks s ! k) (s\<lparr>tasks := splice1 k (tasks s)\<rparr>)
           else s)
      | SetIO p \<Rightarrow> s\<lparr>io := p\<rparr>
      | Tick \<Rightarrow> s\<lparr>now := now s + 1\<rparr>)"

definition run :: "nat \<Rightarrow> (ref \<Rightarrow> job_env) \<Rightarrow> sched \<Rightarrow> event list \<Rightarrow> sched" where
  "run lim env s evs = foldl (step lim env) s evs"

section \<open>Basic facts\<close>

text \<open>What each small step leaves unchanged, and what it changes.\<close>

lemma upd_job_frame [simp]:
  "now (upd_job r f s) = now s" "io (upd_job r f s) = io s" "high (upd_job r f s) = high s"
  "normal (upd_job r f s) = normal s" "low (upd_job r f s) = low s"
  "activeJobs (upd_job r f s) = activeJobs s" "completedJobs (upd_job r f s) = completedJobs s"
  "tasks (upd_job r f s) = tasks s" "calls (upd_job r f s) = calls s"
  "emitted (upd_job r f s) = emitted s" "errorLog (upd_job r f s) = errorLog s"
  "replies (upd_job r f s) = replies s" "unhandled (upd_job r f s) = unhandled s"
  "dispatched (upd_job r f s) = dispatched s"
  by (simp_all add: upd_job_def)

lemma call_frame [simp]:
  "now (call c s) = now s" "io (call c s) = io s" "heap (call c s) = heap s"
  "high (call c s) = high s" "normal (call c s) = normal s" "low (call c s) = low s"
  "activeJobs (call c s) = activeJobs s" "completedJobs (call c s) = completedJobs s"
  "tasks (call c s) = tasks s" "emitted (call c s) = emitted s"
  "errorLog (call c s) = errorLog s" "replies (call c s) = replies s"
  "unhandled (call c s) = unhandled s" "dispatched (call c s) = dispatched s"
  by (simp_all add: call_def)

lemma logError_frame [simp]:
  "now (logError m s) = now s" "io (logError m s) = io s" "heap (logError m s) = heap s"
  "high (logError m s) = high s" "normal (logError m s) = normal s"
  "low (logError m s) = low s" "activeJobs (logError m s) = activeJobs s"
  "completedJobs (logError m s) = completedJobs s" "tasks (logError m s) = tasks s"
  "calls (logError m s) = calls s" "emitted (logError m s) = emitted s"
  "replies (logError m s) = replies s" "unhandled (logError m s) = unhandled s"
  "dispatched (logError m s) = dispatched s"
  by (simp_all add: logError_def)

lemma reply_frame [simp]:
  "now (reply x s) = now s" "io (reply x s) = io s" "heap (reply x s) = heap s"
  "high (reply x s) = high s" "normal (reply x s) = normal s" "low (reply x s) = low s"
  "activeJobs (reply x s) = activeJobs s" "completedJobs (reply x s) = completedJobs s"
  "tasks (reply x s) = tasks s" "calls (reply x s) = calls s" "emitted (reply x s) = emitted s"
  "errorLog (reply x s) = errorLog s" "unhandled (reply x s) = unhandled s"
  "dispatched (reply x s) = dispatched s"
  by (simp_all add: reply_def)

lemma suspend_frame [simp]:
  "now (suspend t s) = now s" "io (suspend t s) = io s" "heap (suspend t s) = heap s"
  "high (suspend t s) = high s" "normal (suspend t s) = normal s" "low (suspend t s) = low s"
  "activeJobs (suspend t s) = activeJobs s" "completedJobs (suspend t s) = completedJobs s"
  "calls (suspend t s) = calls s" "emitted (suspend t s) = emitted s"
  "errorLog (suspend t s) = errorLog s" "replies (suspend t s) = replies s"
  "unhandled (suspend t s) = unhandled s" "dispatched (suspend t s) = dispatched s"
  by (simp_all add: suspend_def)

lemma emitSocketEvent_frame [simp]:
  "now (emitSocketEvent room ev d s) = now s" "io (emitSocketEvent room ev d s) = io s"
  "heap (emitSocketEvent room ev d s) = heap s" "high (emitSocketEvent room ev d s) = high s"
  "normal (emitSocketEvent room ev d s) = normal s" "low (emitSocketEvent room ev d s) = low s"
  "activeJobs (emitSocketEvent room ev d s) = activeJobs s"
  "completedJobs (emitSocketEvent room ev d s) = completedJobs s"
  "tasks (emitSocketEvent room ev d s) = tasks s"
  "calls (emitSocketEvent room ev d s) = calls s"
  "replies (emitSocketEvent room ev d s) = replies s"
  "unhandled (emitSocketEvent room ev d s) = unhandled s"
  "dispatched (emitSocketEvent room ev d s) = dispatched s"
  by (simp_all add: emitSocketEvent_def logError_def split: publisher.splits)

lemma notifyWith_frame [simp]:
  "now (notifyWith r m s) = now s" "io (notifyWith r m s) = io s"
  "heap (notifyWith r m s) = heap s" "high (notifyWith r m s) = high s"
  "normal (notifyWith r m s) = normal s" "low (notifyWith r m s) = low s"
  "activeJobs (notifyWith r m s) = activeJobs s"
  "completedJobs (notifyWith r m s) = completedJobs s" "tasks (notifyWith r m s) = tasks s"
  "calls (notifyWith r m s) = calls s" "replies (notifyWith r m s) = replies s"
  "unhandled (notifyWith r m s) = unhandled s" "dispatched (notifyWith r m s) = dispatched s"
  by (simp_all add: notifyWith_def Let_def)

lemma notify_frame [simp]:
  "now (notify r s) = now s" "io (notify r s) = io s" "heap (notify r s) = heap s"
  "high (notify r s) = high s" "normal (notify r s) = normal s" "low (notify r s) = low s"
  "activeJobs (notify r s) = activeJobs s" "completedJobs (notify r s) = completedJobs s"
  "tasks (notify r s) = tasks s" "calls (notify r s) = calls s"
  "replies (notify r s) = replies s" "unhandled (notify r s) = unhandled s"
  "dispatched (notify r s) = dispatched s"
  by (simp_all add: notify_def)

lemma setProgress_frame [simp]:
  "now (setProgress p m r s) = now s" "io (setProgress p m r s) = io s"
  "high (setProgress p m r s) = high s" "normal (setProgress p m r s) = normal s"
  "low (setProgress p m r s) = low s" "activeJobs (setProgress p m r s) = activeJobs s"
  "completedJobs (setProgress p m r s) = completedJobs s"
  "tasks (setProgress p m r s) = tasks s" "calls (setProgress p m r s) = calls s"
  "replies (setProgress p m r s) = replies s" "unhandled (setProgress p m r s) = unhandled s"
  "dispatched (setProgress p m r s) = dispatched s"
  by (simp_all add: setProgress_def)

lemma startDiscover_frame [simp]:
  "now (startDiscover r s) = now s" "io (startDiscover r s) = io s"
  "heap (startDiscover r s) = heap s" "high (startDiscover r s) = high s"
  "normal (startDiscover r s) = normal s" "low (startDiscover r s) = low s"
  "activeJobs (startDiscover r s) = activeJobs s"
  "completedJobs (startDiscover r s) = completedJobs s" "tasks (startDiscover r s) = tasks s"
  "emitted (startDiscover r s) = emitted s" "errorLog (startDiscover r s) = errorLog s"
  "replies (startDiscover r s) = replies s" "unhandled (startDiscover r s) = unhandled s"
  "dispatched (startDiscover r s) = dispatched s"
  by (simp_all add: startDiscover_def Let_def)

lemma startExtractor_frame [simp]:
  "now (startExtractor x e s) = now s" "io (startExtractor x e s) = io s"
  "heap (startExtractor x e s) = heap s" "high (startExtractor x e s) = high s"
  "normal (startExtractor x e s) = normal s" "low (startExtractor x e s) = low s"
  "activeJobs (startExtractor x e s) = activeJobs s"
  "completedJobs (startExtractor x e s) = completedJobs s"
  "tasks (startExtractor x e s) = tasks s" "emitted (startExtractor x e s) = emitted s"
  "errorLog (startExtractor x e s) = errorLog s" "replies (startExtractor x e s) = replies s"
  "unhandled (startExtractor x e s) = unhandled s"
  "dispatched (startExtractor x e s) = dispatched s"
  by (simp_all add: startExtractor_def)

lemma logThrown_frame [simp]:
  "now (logThrown w x s) = now s" "io (logThrown w x s) = io s"
  "heap (logThrown w x s) = heap s" "high (logThrown w x s) = high s"
  "normal (logThrown w x s) = normal s" "low (logThrown w x s) = low s"
  "activeJobs (logThrown w x s) = activeJobs s"
  "completedJobs (logThrown w x s) = completedJobs s" "tasks (logThrown w x s) = tasks s"
  "calls (logThrown w x s) = calls s" "emitted (logThrown w x s) = emitted s"
  "replies (logThrown w x s) = replies s" "unhandled (logThrown w x s) = unhandled s"
  "dispatched (logThrown w x s) = dispatched s"
  by (simp_all add: logThrown_def split: result.splits)

lemma processJob_catch_frame [simp]:
  "now (processJob_catch m s) = now s" "io (processJob_catch m s) = io s"
  "heap (processJob_catch m s) = heap s" "high (processJob_catch m s) = high s"
  "normal (processJob_catch m s) = normal s" "low (processJob_catch m s) = low s"
  "activeJobs (processJob_catch m s) = activeJobs s"
  "completedJobs (processJob_catch m s) = completedJobs s"
  "tasks (processJob_catch m s) = tasks s" "calls (processJob_catch m s) = calls s"
  "emitted (processJob_catch m s) = emitted s" "replies (processJob_catch m s) = replies s"
  "dispatched (processJob_catch m s) = dispatched s"
  by (simp_all add: processJob_catch_def)

lemma minimal_catch_frame [simp]:
  "now (minimal_catch m s) = now s" "io (minimal_catch m s) = io s"
  "heap (minimal_catch m s) = heap s" "high (minimal_catch m s) = high s"
  "normal (minimal_catch m s) = normal s" "low (minimal_catch m s) = low s"
  "activeJobs (minimal_catch m s) = activeJobs s"
  "completedJobs (minimal_catch m s) = completedJobs s" "tasks (minimal_catch m s) = tasks s"
  "calls (minimal_catch m s) = calls s" "emitted (minimal_catch m s) = emitted s"
  "replies (minimal_catch m s) = replies s" "dispatched (minimal_catch m s) = dispatched s"
  by (simp_all add: minimal_catch_def)

lemma completeJob_frame [simp]:
  "now (completeJob m r s) = now s" "io (completeJob m r s) = io s"
  "high (completeJob m r s) = high s" "normal (completeJob m r s) = normal s"
  "low (completeJob m r s) = low s" "activeJobs (completeJob m r s) = activeJobs s"
  "completedJobs (completeJob m r s) = completedJobs s" "tasks (completeJob m r s) = tasks s"
  "emitted (completeJob m r s) = emitted s" "errorLog (completeJob m r s) = errorLog s"
  "replies (completeJob m r s) = replies s" "unhandled (completeJob m r s) = unhandled s"
  "dispatched (completeJob m r s) = dispatched s"
  by (simp_all add: completeJob_def Let_def)

lemma processJob_start_frame [simp]:
  "now (processJob_start r s) = now s" "io (processJob_start r s) = io s"
  "high (processJob_start r s) = high s" "normal (processJob_start r s) = normal s"
  "low (processJob_start r s) = low s" "completedJobs (processJob_start r s) = completedJobs s"
  "emitted (processJob_start r s) = emitted s" "errorLog (processJob_start r s) = errorLog s"
  "replies (processJob_start r s) = replies s" "unhandled (processJob_start r s) = unhandled s"
  by (simp_all add: processJob_start_def Let_def)

lemma push_frame [simp]:
  "now (push p r s) = now s" "io (push p r s) = io s" "heap (push p r s) = heap s"
  "activeJobs (push p r s) = activeJobs s" "completedJobs (push p r s) = completedJobs s"
  "tasks (push p r s) = tasks s" "calls (push p r s) = calls s"
  "emitted (push p r s) = emitted s" "errorLog (push p r s) = errorLog s"
  "replies (push p r s) = replies s" "unhandled (push p r s) = unhandled s"
  "dispatched (push p r s) = dispatched s"
  by (simp_all add: push_def split: priority.splits)

lemma upd_job_heap [simp]: "heap (upd_job r f s) = (heap s)[r := f (heap s ! r)]"
  by (simp add: upd_job_def)

lemma call_calls [simp]: "calls (call c s) = calls s @ [c]"
  by (simp add: call_def)

lemma logError_errorLog [simp]: "errorLog (logError m s) = errorLog s @ [m]"
  by (simp add: logError_def)

lemma reply_replies [simp]: "replies (reply x s) = replies s @ [x]"
  by (simp add: reply_def)

lemma suspend_tasks [simp]: "tasks (suspend t s) = tasks s @ [t]"
  by (simp add: suspend_def)

lemma emitSocketEvent_emitted:
  "emitted (emitSocketEvent room ev d s) =
     (if io s = IOWorks then emitted s @ [(room, ev, d)] else emitted s)"
  by (simp add: emitSocketEvent_def logError_def split: publisher.splits)

lemma emitSocketEvent_errorLog:
  "errorLog (emitSocketEvent room ev d s) =
     (case io s of IOThrows m \<Rightarrow> errorLog s @ [''Error emitting socket event: '' @ m]
      | _ \<Rightarrow> errorLog s)"
  by (simp add: emitSocketEvent_def logError_def split: publisher.splits)

definition jobEvent :: "job \<Rightarrow> string \<Rightarrow> string \<times> string \<times> payload" where
  "jobEvent j m =
     (''job-'' @ jobId j, ''job-update'',
      \<lparr>pJobId = jobId j, pStatus = status j, pProgress = progress j, pMessage = m\<rparr>)"

lemma notifyWith_emitted:
  "emitted (notifyWith r m s) =
     (if io s = IOWorks then emitted s @ [jobEvent (heap s ! r) m] else emitted s)"
  by (simp add: notifyWith_def Let_def emitSocketEvent_emitted jobEvent_def)

lemma notify_emitted:
  "emitted (notify r s) =
     (if io s = IOWorks then emitted s @ [jobEvent (heap s ! r) (message (heap s ! r))]
      else emitted s)"
  by (simp add: notify_def notifyWith_emitted)

lemma setProgress_heap [simp]:
  "heap (setProgress p m r s) = (heap s)[r := (heap s ! r)\<lparr>progress := p, message := m\<rparr>]"
  by (simp add: setProgress_def)

lemma startDiscover_calls [simp]:
  "calls (startDiscover r s) =
     calls s @ [DiscoverPages (domain (heap s ! r)) (depth (heap s ! r)) (jobId (heap s ! r))
                  (discoverOptionsFor (heap s ! r))]"
  by (simp add: startDiscover_def Let_def)

lemma startExtractor_calls [simp]:
  "calls (startExtractor x e s) = calls s @ [Extract x (pagesWithContent e) None]"
  by (simp add: startExtractor_def)

lemma completeJob_heap [simp]:
  "heap (completeJob m r s) =
     (heap s)[r := (heap s ! r)\<lparr>status := Complete, progress := 100, message := m,
                                completedAt := Some (now s)\<rparr>]"
  by (simp add: completeJob_def Let_def)

lemma processJob_start_heap [simp]:
  "heap (processJob_start r s) =
     (heap s)[r := (heap s ! r)\<lparr>status := Processing, startedAt := Some (now s)\<rparr>]"
  by (simp add: processJob_start_def Let_def)

lemma processJob_start_tasks [simp]:
  "tasks (processJob_start r s) = tasks s @ [Worker r AwaitUpdateProcessing]"
  by (simp add: processJob_start_def Let_def)

lemma processJob_start_dispatched [simp]:
  "dispatched (processJob_start r s) = dispatched s @ [r]"
  by (simp add: processJob_start_def Let_def)

lemma processJob_start_activeJobs:
  "activeJobs (processJob_start r s) = map_set (jobId (heap s ! r)) r (activeJobs s)"
  by (cases "r < length (heap s)")
     (simp_all add: processJob_start_def Let_def upd_job_def list_update_beyond)

lemma processJob_start_calls [simp]:
  "calls (processJob_start r s) =
     calls s @ [UpdateJobStatus (jobId (heap s ! r)) Processing
                  (if r < length (heap s) then Some (now s) else startedAt (heap s ! r)) None]"
  by (cases "r < length (heap s)")
     (simp_all add: processJob_start_def Let_def upd_job_def list_update_beyond)

lemma shiftNext_frame:
  assumes "shiftNext s = Some (r, s1)"
  shows "now s1 = now s" "io s1 = io s" "heap s1 = heap s" "activeJobs s1 = activeJobs s"
    "completedJobs s1 = completedJobs s" "tasks s1 = tasks s" "calls s1 = calls s"
    "emitted s1 = emitted s" "errorLog s1 = errorLog s" "replies s1 = replies s"
    "unhandled s1 = unhandled s" "dispatched s1 = dispatched s"
  using assms by (auto simp: shiftNext_def split: list.splits)

lemma processNextJob_preserves:
  assumes "\<And>r s s1. shiftNext s = Some (r, s1) \<Longrightarrow> P s \<Longrightarrow>
             map_size (activeJobs s) < lim \<Longrightarrow> P (processJob_start r s1)"
    and "P s"
  shows "P (processNextJob lim s)"
  using assms
proof (induction lim s rule: processNextJob.induct)
  case (1 lim s)
  note step = "1.prems"(1) and P = "1.prems"(2)
  show ?case
  proof (cases "lim \<le> map_size (activeJobs s)")
    case True
    then show ?thesis using P by (simp add: processNextJob.simps)
  next
    case False
    show ?thesis
    proof (cases "shiftNext s")
      case None
      then show ?thesis using False P by (simp add: processNextJob.simps)
    next
      case (Some a)
      obtain r s1 where a: "a = (r, s1)" by (cases a)
      have P2: "P (processJob_start r s1)" using step [of s r s1] Some a P False by simp
      show ?thesis
      proof (cases "map_size (activeJobs (processJob_start r s1)) < lim")
        case True
        have "P (processNextJob lim (processJob_start r s1))"
          using "1.IH" [OF False Some a [symmetric] refl True step P2] .
        then show ?thesis using False Some a True
          by (simp add: processNextJob.simps [of lim s])
      next
        case False2: False
        then show ?thesis using False Some a P2
          by (simp add: processNextJob.simps [of lim s])
      qed
    qed
  qed
qed

lemma processNextJob_frame [simp]:
  "now (processNextJob lim s) = now s" "io (processNextJob lim s) = io s"
  "completedJobs (processNextJob lim s) = completedJobs s"
  "emitted (processNextJob lim s) = emitted s" "errorLog (processNextJob lim s) = errorLog s"
  "replies (processNextJob lim s) = replies s" "unhandled (processNextJob lim s) = unhandled s"
  "length (heap (processNextJob lim s)) = length (heap s)"
proof -
  have "(\<lambda>s'. now s' = now s \<and> io s' = io s \<and> completedJobs s' = completedJobs s \<and>
          emitted s' = emitted s \<and> errorLog s' = errorLog s \<and> replies s' = replies s \<and>
          unhandled s' = unhandled s \<and> length (heap s') = length (heap s))
        (processNextJob lim s)"
    by (rule processNextJob_preserves) (auto simp: shiftNext_frame)
  then show "now (processNextJob lim s) = now s" "io (processNextJob lim s) = io s"
    "completedJobs (processNextJob lim s) = completedJobs s"
    "emitted (processNextJob lim s) = emitted s" "errorLog (processNextJob lim s) = errorLog s"
    "replies (processNextJob lim s) = replies s" "unhandled (processNextJob lim s) = unhandled s"
    "length (heap (processNextJob lim s)) = length (heap s)"
    by simp_all
qed

section \<open>Example data\<close>

definition exampleJob :: "string \<Rightarrow> priority \<Rightarrow> job" where
  "exampleJob i p =
     \<lparr>jobId = i, domain = ''example.com'', depth = 1, priority = Some p, maxPages = None,
      status = Queued, progress = 0, message = [], startedAt = None, completedAt = None\<rparr>"

definition examplePage :: "string \<Rightarrow> page" where
  "examplePage u = \<lparr>url = u, title = None\<rparr>"

text \<open>A site with two pages on which every call succeeds.\<close>

definition twoPages :: job_env where
  "twoPages =
     \<lparr>updateProcessing = Returns (), canResumeJob = Returns False,
      selectDomainInfo = Returns [7], insertDomainInfo = Returns 7,
      discoverPages = Returns [examplePage ''/'', examplePage ''/about''],
      saveResults = Returns (), extractPageContent = (\<lambda>_. Returns (Some ''text'')),
      enhancedImageExtractor = Returns (defaultImages\<lparr>allImages := [''logo.png'']\<rparr>),
      socialMediaExtractor = Returns (defaultSocialMedia\<lparr>links := [(''x'', ''x.com/e'')]\<rparr>),
      blogExtractor = Returns (defaultBlog\<lparr>hasBlog := True\<rparr>),
      colorExtractor = Returns (defaultColors\<lparr>primaryColor := ''#000000''\<rparr>),
      generalExtractor = Returns (defaultGeneral ''Example''),
      isbnExtractor = Returns (defaultIsbn\<lparr>isbns := [''9780000000002'']\<rparr>),
      storeDomainData = Returns (), updateComplete = Returns ()\<rparr>"

definition noPages :: job_env where
  "noPages = twoPages\<lparr>discoverPages := Returns []\<rparr>"

text \<open>One job submitted and started, its pipeline at the first extractor (progress 60).\<close>

definition midExtraction :: sched where
  "midExtraction =
     run 5 (\<lambda>_. twoPages) (initial IOWorks)
       [CallQueueJob (exampleJob ''J1'' Normal) (Returns ()), Resume 0,
        Resume 0, Resume 0, Resume 0, Resume 0, Resume 0, Resume 0]"

section \<open>Submission\<close>

text \<open>
  Claim C8. When \<^verbatim>\<open>saveJob\<close> throws, \<^verbatim>\<open>queueJob\<close> throws an error that carries the
  store's message, and neither part of the function (before and after the \<^verbatim>\<open>await\<close>)
  changes a tier of the queue or the active-job map; nothing is dispatched.
\<close>

theorem queueJob_store_failure_atomic:
  "high (queueJob_call j (Throws m) s) = high s \<and>
   normal (queueJob_call j (Throws m) s) = normal s \<and>
   low (queueJob_call j (Throws m) s) = low s \<and>
   activeJobs (queueJob_call j (Throws m) s) = activeJobs s \<and>
   tasks (queueJob_call j (Throws m) s) = tasks s @ [QueueCont (length (heap s)) (Throws m)] \<and>
   high (queueJob_cont lim r (Throws m) s') = high s' \<and>
   normal (queueJob_cont lim r (Throws m) s') = normal s' \<and>
   low (queueJob_cont lim r (Throws m) s') = low s' \<and>
   activeJobs (queueJob_cont lim r (Throws m) s') = activeJobs s' \<and>
   dispatched (queueJob_cont lim r (Throws m) s') = dispatched s' \<and>
   tasks (queueJob_cont lim r (Throws m) s') = tasks s' \<and>
   replies (queueJob_cont lim r (Throws m) s') =
     replies s' @ [QueueJobThrew (''Failed to queue job: '' @ m)]"
  by (simp add: queueJob_call_def queueJob_cont_def call_def suspend_def reply_def logError_def Let_def)

section \<open>Dispatch order\<close>

lemma shiftNext_tiers:
  assumes "shiftNext s = Some (r, s1)"
  shows "(high s = r # high s1 \<and> normal s1 = normal s \<and> low s1 = low s) \<or>
         (high s = [] \<and> high s1 = [] \<and> normal s = r # normal s1 \<and> low s1 = low s) \<or>
         (high s = [] \<and> high s1 = [] \<and> normal s = [] \<and> normal s1 = [] \<and> low s = r # low s1)"
  using assms by (auto simp: shiftNext_def split: list.splits)

definition dispatchedPrefix :: "nat \<Rightarrow> sched \<Rightarrow> sched \<Rightarrow> bool" where
  "dispatchedPrefix k s s' =
     (dispatched s' = dispatched s @ take k (high s @ normal s @ low s) \<and>
      high s' = drop k (high s) \<and>
      normal s' = drop (k - length (high s)) (normal s) \<and>
      low s' = drop (k - length (high s) - length (normal s)) (low s))"

lemma dispatchedPrefix_step:
  assumes sh: "shiftNext s = Some (r, s1)"
    and rest: "dispatchedPrefix k (processJob_start r s1) s'"
  shows "dispatchedPrefix (Suc k) s s'"
proof -
  have d: "dispatched s1 = dispatched s" using sh by (simp add: shiftNext_frame)
  from shiftNext_tiers [OF sh] show ?thesis
  proof (elim disjE conjE)
    assume "high s = r # high s1" "normal s1 = normal s" "low s1 = low s"
    then show ?thesis using rest d by (simp add: dispatchedPrefix_def)
  next
    assume "high s = []" "high s1 = []" "normal s = r # normal s1" "low s1 = low s"
    then show ?thesis using rest d by (simp add: dispatchedPrefix_def)
  next
    assume "high s = []" "high s1 = []" "normal s = []" "normal s1 = []" "low s = r # low s1"
    then show ?thesis using rest d by (simp add: dispatchedPrefix_def)
  qed
qed

lemma processNextJob_prefix: "\<exists>k. dispatchedPrefix k s (processNextJob lim s)"
proof (induction lim s rule: processNextJob.induct)
  case (1 lim s)
  show ?case
  proof (cases "lim \<le> map_size (activeJobs s)")
    case True
    then have "dispatchedPrefix 0 s (processNextJob lim s)"
      by (simp add: processNextJob.simps dispatchedPrefix_def)
    then show ?thesis ..
  next
    case False
    show ?thesis
    proof (cases "shiftNext s")
      case None
      then have "dispatchedPrefix 0 s (processNextJob lim s)"
        using False by (simp add: processNextJob.simps dispatchedPrefix_def)
      then show ?thesis ..
    next
      case (Some a)
      obtain r s1 where a: "a = (r, s1)" by (cases a)
      show ?thesis
      proof (cases "map_size (activeJobs (processJob_start r s1)) < lim")
        case True
        from "1.IH" [OF False Some a [symmetric] refl True]
        obtain k where "dispatchedPrefix k (processJob_start r s1)
                          (processNextJob lim (processJob_start r s1))" ..
        then have "dispatchedPrefix (Suc k) s (processNextJob lim (processJob_start r s1))"
          using Some a by (auto intro: dispatchedPrefix_step)
        then show ?thesis using False Some a True
          by (auto simp: processNextJob.simps [of lim s])
      next
        case False2: False
        have "dispatchedPrefix 0 (processJob_start r s1) (processJob_start r s1)"
          by (simp add: dispatchedPrefix_def)
        then have "dispatchedPrefix (Suc 0) s (processJob_start r s1)"
          using Some a by (auto intro: dispatchedPrefix_step)
        then show ?thesis using False Some a False2
          by (auto simp: processNextJob.simps [of lim s])
      qed
    qed
  qed
qed

text \<open>
  Three jobs H1 (high), N1 (normal), H2 (high) submitted in this order with one slot:
  each \<^verbatim>\<open>queueJob\<close> call is followed by its continuation (\<open>Resume\<close> of the task it
  left); H1 starts at once and takes the slot. Then whichever job runs is resumed until
  its pipeline ends (six resumptions on a site without pages).
\<close>

definition threeJobs :: "event list" where
  "threeJobs =
     [CallQueueJob (exampleJob ''H1'' High) (Returns ()), Resume 0,
      CallQueueJob (exampleJob ''N1'' Normal) (Returns ()), Resume 1,
      CallQueueJob (exampleJob ''H2'' High) (Returns ()), Resume 1,
      Resume 0, Resume 0, Resume 0, Resume 0, Resume 0, Resume 0,
      Resume 0, Resume 0, Resume 0, Resume 0, Resume 0, Resume 0,
      Resume 0, Resume 0, Resume 0, Resume 0, Resume 0, Resume 0]"

definition dispatchedIds :: "sched \<Rightarrow> string list" where
  "dispatchedIds s = map (\<lambda>r. jobId (heap s ! r)) (dispatched s)"

text \<open>The same three jobs found pending by \<^verbatim>\<open>init\<close>.\<close>

definition threePending :: "event list" where
  "threePending =
     [CallInit (Returns [exampleJob ''H1'' High, exampleJob ''N1'' Normal,
                         exampleJob ''H2'' High]), Resume 0,
      Resume 0, Resume 0, Resume 0, Resume 0, Resume 0, Resume 0,
      Resume 0, Resume 0, Resume 0, Resume 0, Resume 0, Resume 0,
      Resume 0, Resume 0, Resume 0, Resume 0, Resume 0, Resume 0]"

lemma threeJobs_order:
  "dispatchedIds (run 1 (\<lambda>_. noPages) (initial IOWorks) threeJobs) = [''H1'', ''H2'', ''N1'']"
  by code_simp

lemma threePending_order:
  "dispatchedIds (run 1 (\<lambda>_. noPages) (initial IOWorks) threePending) = [''H1'', ''H2'', ''N1'']"
  by code_simp

text \<open>The number of jobs that one call of \<^verbatim>\<open>processNextJob\<close> hands to \<^verbatim>\<open>processJob\<close>.\<close>

definition dispatchCount :: "nat \<Rightarrow> sched \<Rightarrow> nat" where
  "dispatchCount lim s = length (dispatched (processNextJob lim s)) - length (dispatched s)"

lemma dispatchedPrefix_count:
  assumes "dispatchedPrefix k s s'"
  shows "dispatchedPrefix (length (dispatched s') - length (dispatched s)) s s'"
proof -
  let ?n = "length (high s) + length (normal s) + length (low s)"
  have len: "length (dispatched s') - length (dispatched s) = min k ?n"
    using assms by (simp add: dispatchedPrefix_def)
  show ?thesis
  proof (cases "k \<le> ?n")
    case True
    then have "min k ?n = k" by simp
    then show ?thesis using assms len by simp
  next
    case False
    then have m: "min k ?n = ?n" by simp
    have "dispatchedPrefix ?n s s'"
      using assms False by (simp add: dispatchedPrefix_def)
    then show ?thesis using len m by simp
  qed
qed

lemma processNextJob_count:
  "dispatchedPrefix (dispatchCount lim s) s (processNextJob lim s)"
proof -
  from processNextJob_prefix [of s lim] obtain k where
    "dispatchedPrefix k s (processNextJob lim s)" ..
  then show ?thesis unfolding dispatchCount_def by (rule dispatchedPrefix_count)
qed

lemma processNextJob_stops:
  "lim \<le> map_size (activeJobs (processNextJob lim s)) \<or> queued (processNextJob lim s) = []"
proof (induction lim s rule: processNextJob.induct)
  case (1 lim s)
  show ?case
  proof (cases "lim \<le> map_size (activeJobs s)")
    case True
    then show ?thesis by (simp add: processNextJob.simps)
  next
    case False
    show ?thesis
    proof (cases "shiftNext s")
      case None
      then have "queued s = []" by (auto simp: shiftNext_def queued_def split: list.splits)
      then show ?thesis using False None by (simp add: processNextJob.simps)
    next
      case (Some a)
      obtain r s1 where a: "a = (r, s1)" by (cases a)
      show ?thesis
      proof (cases "map_size (activeJobs (processJob_start r s1)) < lim")
        case True
        from "1.IH" [OF False Some a [symmetric] refl True]
        show ?thesis using False Some a True by (simp add: processNextJob.simps [of lim s])
      next
        case False2: False
        then show ?thesis using False Some a by (simp add: processNextJob.simps [of lim s])
      qed
    qed
  qed
qed

lemma processNextJob_full: "lim \<le> map_size (activeJobs s) \<Longrightarrow> processNextJob lim s = s"
  by (simp add: processNextJob.simps)

lemma processNextJob_dispatched_mono:
  "length (dispatched s) \<le> length (dispatched (processNextJob lim s))"
proof -
  from processNextJob_prefix [of s lim] obtain k where
    "dispatchedPrefix k s (processNextJob lim s)" ..
  then show ?thesis by (simp add: dispatchedPrefix_def)
qed

lemma processNextJob_progress:
  assumes free: "map_size (activeJobs s) < lim" and waiting: "queued s \<noteq> []"
  shows "0 < dispatchCount lim s"
proof -
  from waiting obtain r s1 where sh: "shiftNext s = Some (r, s1)"
    by (cases "shiftNext s") (auto simp: shiftNext_def queued_def split: list.splits)
  let ?s2 = "processJob_start r s1"
  have d: "length (dispatched ?s2) = Suc (length (dispatched s))"
    using shiftNext_frame(12) [OF sh] by simp
  have "length (dispatched ?s2) \<le> length (dispatched (processNextJob lim s))"
  proof (cases "map_size (activeJobs ?s2) < lim")
    case True
    then have "processNextJob lim s = processNextJob lim ?s2"
      using free sh by (simp add: processNextJob.simps [of lim s])
    then show ?thesis using processNextJob_dispatched_mono [of ?s2 lim] by simp
  next
    case False
    then have "processNextJob lim s = ?s2"
      using free sh by (simp add: processNextJob.simps [of lim s])
    then show ?thesis by simp
  qed
  then show ?thesis using d by (simp add: dispatchCount_def)
qed

text \<open>
  The jobs \<open>ds\<close> were started between \<open>s\<close> and \<open>s'\<close>: one invocation of \<^verbatim>\<open>processJob\<close>
  each, in this order, and each job has the status processing.
\<close>

definition startedBy :: "sched \<Rightarrow> ref list \<Rightarrow> sched \<Rightarrow> bool" where
  "startedBy s ds s' =
     (dispatched s' = dispatched s @ ds \<and>
      tasks s' = tasks s @ map (\<lambda>r. Worker r AwaitUpdateProcessing) ds \<and>
      length (heap s') = length (heap s) \<and>
      (\<forall>r \<in> set ds. r < length (heap s) \<longrightarrow> status (heap s' ! r) = Processing))"

lemma startedBy_step:
  assumes sh: "shiftNext s0 = Some (r, s1)" and ds: "startedBy s ds s0"
  shows "startedBy s (ds @ [r]) (processJob_start r s1)"
proof -
  note fr = shiftNext_frame [OF sh]
  have len: "length (heap s0) = length (heap s)" using ds by (simp add: startedBy_def)
  have st: "status (heap (processJob_start r s1) ! r') = Processing"
    if "r' \<in> set (ds @ [r])" and "r' < length (heap s)" for r'
  proof (cases "r' = r")
    case True
    have "r < length (heap s1)" using that(2) True len fr(3) by simp
    then show ?thesis using True by simp
  next
    case False
    then have "r' \<in> set ds" using that(1) by simp
    then have "status (heap s0 ! r') = Processing" using ds that(2) by (simp add: startedBy_def)
    then show ?thesis using False fr(3) by simp
  qed
  have "dispatched (processJob_start r s1) = dispatched s @ (ds @ [r])"
    using ds fr(12) by (simp add: startedBy_def)
  moreover have "tasks (processJob_start r s1) =
      tasks s @ map (\<lambda>r. Worker r AwaitUpdateProcessing) (ds @ [r])"
    using ds fr(6) by (simp add: startedBy_def)
  moreover have "length (heap (processJob_start r s1)) = length (heap s)"
    using len fr(3) by simp
  ultimately show ?thesis using st unfolding startedBy_def by blast
qed

lemma processNextJob_started: "\<exists>ds. startedBy s ds (processNextJob lim s)"
proof -
  have "(\<lambda>s'. \<exists>ds. startedBy s ds s') (processNextJob lim s)"
  proof (rule processNextJob_preserves)
    fix r s0 s1
    assume "shiftNext s0 = Some (r, s1)" and "\<exists>ds. startedBy s ds s0"
    then show "\<exists>ds. startedBy s ds (processJob_start r s1)"
      using startedBy_step by blast
  next
    have "startedBy s [] s" by (simp add: startedBy_def)
    then show "\<exists>ds. startedBy s ds s" ..
  qed
  then show ?thesis .
qed

text \<open>
  Six pending jobs, two of each tier, in the order L1, N1, H1, L2, H2, N2, as \<^verbatim>\<open>init\<close>
  finds them; \<open>sixQueued\<close> is the queue that \<^verbatim>\<open>init\<close> builds from them, \<open>sixRun\<close> the
  run of \<^verbatim>\<open>init\<close> followed by the resumption of whatever is suspended until all six
  pipelines have ended.
\<close>

definition sixPending :: "job list" where
  "sixPending =
     [exampleJob ''L1'' Low, exampleJob ''N1'' Normal, exampleJob ''H1'' High,
      exampleJob ''L2'' Low, exampleJob ''H2'' High, exampleJob ''N2'' Normal]"

definition sixQueued :: sched where
  "sixQueued = foldl enqueuePending (initial IOWorks) sixPending"

definition sixRun :: "event list" where
  "sixRun =
     [CallInit (Returns sixPending), Resume 0,
      Resume 0, Resume 0, Resume 0, Resume 0, Resume 0, Resume 0,
      Resume 0, Resume 0, Resume 0, Resume 0, Resume 0, Resume 0,
      Resume 0, Resume 0, Resume 0, Resume 0, Resume 0, Resume 0,
      Resume 0, Resume 0, Resume 0, Resume 0, Resume 0, Resume 0,
      Resume 0, Resume 0, Resume 0, Resume 0, Resume 0, Resume 0,
      Resume 0, Resume 0, Resume 0, Resume 0, Resume 0, Resume 0]"

lemma sixRun_order:
  "dispatchedIds (run 2 (\<lambda>_. noPages) (initial IOWorks) sixRun) =
     [''H1'', ''H2'', ''N1'', ''N2'', ''L1'', ''L2'']"
  by code_simp

text \<open>
  Claim C3. One call of \<^verbatim>\<open>processNextJob\<close> in any state, with \<open>dispatchCount\<close> the
  number of jobs it hands to \<^verbatim>\<open>processJob\<close>: the jobs started are the first
  \<open>dispatchCount\<close> elements of the high tier followed by the normal tier followed by
  the low tier, each in its stored order, and they are started in this order (one
  invocation of \<^verbatim>\<open>processJob\<close> each, status processing); what is left of each tier is
  the rest of it, so a job of a lower tier is taken only when the higher tiers are
  exhausted. The call goes on until the active set has reached the limit or all three
  tiers are empty; it starts nothing when the active set is at the limit already, and
  at least one job when there is a free slot and a job waits.
  \<^verbatim>\<open>queueJob\<close> and \<^verbatim>\<open>init\<close> add a job at the end of its tier. For H1 (high), N1
  (normal), H2 (high) submitted in this order with one slot the jobs are started in the
  order H1, H2, N1; six pending jobs L1, N1, H1, L2, H2, N2 with two slots are started
  in the order H1, H2, N1, N2, L1, L2.
\<close>

theorem dispatch_strict_priority_fifo:
  "dispatched (processNextJob lim s) =
     dispatched s @ take (dispatchCount lim s) (high s @ normal s @ low s) \<and>
   high (processNextJob lim s) = drop (dispatchCount lim s) (high s) \<and>
   normal (processNextJob lim s) = drop (dispatchCount lim s - length (high s)) (normal s) \<and>
   low (processNextJob lim s) =
     drop (dispatchCount lim s - length (high s) - length (normal s)) (low s) \<and>
   tasks (processNextJob lim s) =
     tasks s @ map (\<lambda>r. Worker r AwaitUpdateProcessing)
                 (take (dispatchCount lim s) (high s @ normal s @ low s)) \<and>
   (\<forall>r \<in> set (take (dispatchCount lim s) (high s @ normal s @ low s)).
      r < length (heap s) \<longrightarrow> status (heap (processNextJob lim s) ! r) = Processing) \<and>
   (lim \<le> map_size (activeJobs (processNextJob lim s)) \<or>
    (high (processNextJob lim s) = [] \<and> normal (processNextJob lim s) = [] \<and>
     low (processNextJob lim s) = [])) \<and>
   (lim \<le> map_size (activeJobs s) \<longrightarrow> processNextJob lim s = s) \<and>
   (map_size (activeJobs s) < lim \<and> high s @ normal s @ low s \<noteq> [] \<longrightarrow>
      0 < dispatchCount lim s) \<and>
   high (push High r s) = high s @ [r] \<and>
   normal (push Normal r s) = normal s @ [r] \<and>
   low (push Low r s) = low s @ [r] \<and>
   dispatchedIds (run 1 (\<lambda>_. noPages) (initial IOWorks) threeJobs) = [''H1'', ''H2'', ''N1''] \<and>
   dispatchedIds (run 1 (\<lambda>_. noPages) (initial IOWorks) threePending) = [''H1'', ''H2'', ''N1''] \<and>
   dispatchedIds (run 2 (\<lambda>_. noPages) (initial IOWorks) sixRun) =
     [''H1'', ''H2'', ''N1'', ''N2'', ''L1'', ''L2'']"
proof -
  let ?s' = "processNextJob lim s"
  let ?k = "dispatchCount lim s"
  let ?q = "high s @ normal s @ low s"
  have pre: "dispatchedPrefix ?k s ?s'" by (rule processNextJob_count)
  then have d: "dispatched ?s' = dispatched s @ take ?k ?q"
    and t: "high ?s' = drop ?k (high s)"
      "normal ?s' = drop (?k - length (high s)) (normal s)"
      "low ?s' = drop (?k - length (high s) - length (normal s)) (low s)"
    by (simp_all add: dispatchedPrefix_def)
  from processNextJob_started [of s lim] obtain ds where ds: "startedBy s ds ?s'" ..
  then have "dispatched ?s' = dispatched s @ ds" by (simp add: startedBy_def)
  then have eq: "ds = take ?k ?q" using d by simp
  have w: "tasks ?s' = tasks s @ map (\<lambda>r. Worker r AwaitUpdateProcessing) (take ?k ?q)"
    using ds eq by (simp add: startedBy_def)
  have st: "\<forall>r \<in> set (take ?k ?q). r < length (heap s) \<longrightarrow> status (heap ?s' ! r) = Processing"
    using ds unfolding startedBy_def eq by blast
  have stop: "lim \<le> map_size (activeJobs ?s') \<or> (high ?s' = [] \<and> normal ?s' = [] \<and> low ?s' = [])"
    using processNextJob_stops [of lim s] by (simp add: queued_def)
  have full: "lim \<le> map_size (activeJobs s) \<longrightarrow> ?s' = s"
    by (simp add: processNextJob_full)
  have prog: "map_size (activeJobs s) < lim \<and> high s @ normal s @ low s \<noteq> [] \<longrightarrow>
      0 < dispatchCount lim s"
    using processNextJob_progress [of s lim] by (simp add: queued_def)
  have p: "high (push High r s) = high s @ [r]" "normal (push Normal r s) = normal s @ [r]"
    "low (push Low r s) = low s @ [r]"
    by (simp_all add: push_def)
  from d t w st stop full prog p threeJobs_order threePending_order sixRun_order
  show ?thesis by (intro conjI) assumption+
qed

theorem dispatch_strict_priority_fifo_witness:
  "high sixQueued @ normal sixQueued @ low sixQueued = [2, 4, 1, 5, 0, 3] \<and>
   dispatchCount 2 sixQueued = 2 \<and>
   dispatched (processNextJob 2 sixQueued) = [2, 4] \<and>
   status (heap (processNextJob 2 sixQueued) ! 2) = Processing \<and>
   status (heap (processNextJob 2 sixQueued) ! 4) = Processing \<and>
   high (processNextJob 2 sixQueued) = [] \<and>
   normal (processNextJob 2 sixQueued) = [1, 5] \<and>
   low (processNextJob 2 sixQueued) = [0, 3] \<and>
   map_size (activeJobs (processNextJob 2 sixQueued)) = 2 \<and>
   processNextJob 2 (processNextJob 2 sixQueued) = processNextJob 2 sixQueued"
proof -
  have a: "high sixQueued = [2, 4]" "normal sixQueued = [1, 5]" "low sixQueued = [0, 3]"
    "length (heap sixQueued) = 6" "dispatched sixQueued = []"
    by code_simp+
  have k: "dispatchCount 2 sixQueued = 2" by code_simp
  have f: "map_size (activeJobs (processNextJob 2 sixQueued)) = 2" by code_simp
  note th = dispatch_strict_priority_fifo [of 2 sixQueued]
  from th have 1: "dispatched (processNextJob 2 sixQueued) = [2, 4]"
    "high (processNextJob 2 sixQueued) = []" "normal (processNextJob 2 sixQueued) = [1, 5]"
    "low (processNextJob 2 sixQueued) = [0, 3]"
    unfolding k a by simp_all
  from th have "\<forall>r \<in> set (take 2 ([2, 4] @ [1, 5] @ [0, 3])). r < 6 \<longrightarrow>
      status (heap (processNextJob 2 sixQueued) ! r) = Processing"
    unfolding k a by blast
  then have 2: "status (heap (processNextJob 2 sixQueued) ! 2) = Processing"
    "status (heap (processNextJob 2 sixQueued) ! 4) = Processing"
    by simp_all
  from dispatch_strict_priority_fifo [of 2 "processNextJob 2 sixQueued"] f
  have 3: "processNextJob 2 (processNextJob 2 sixQueued) = processNextJob 2 sixQueued"
    by simp
  from a k f 1 2 3 show ?thesis by simp
qed

section \<open>Discovery and the cooldown\<close>

text \<open>
  Modelled from the spec: \<^verbatim>\<open>discoveryService.discoverPages\<close> is imported by the scrape
  manager (line 3) but its file is not under \<^verbatim>\<open>src/\<close>. The spec (4.3): if the domain was
  crawled within \<^verbatim>\<open>cooldownMinutes\<close> and \<^verbatim>\<open>bypassCooldown\<close> is false, discovery yields
  the previously stored page set (or an empty set if none) rather than re-fetching.
  \<open>sinceLast\<close> is the number of minutes since the last crawl of the domain (\<open>None\<close>
  when it was never crawled), \<open>stored\<close> the stored page set, \<open>fresh\<close> what a crawl
  would find now; the result is the page set and whether pages were fetched.
\<close>

definition discoverPages_spec ::
    "discoverOptions \<Rightarrow> nat option \<Rightarrow> page list option \<Rightarrow> page list \<Rightarrow> page list \<times> bool" where
  "discoverPages_spec opts sinceLast stored fresh =
     (if \<not> bypassCooldown opts \<and>
         (case sinceLast of Some m \<Rightarrow> m < cooldownMinutes opts | None \<Rightarrow> False)
      then ((case stored of Some ps \<Rightarrow> ps | None \<Rightarrow> []), False)
      else (fresh, True))"

text \<open>
  Claim C9, as stated, fails: \<^verbatim>\<open>processJob\<close> passes \<^verbatim>\<open>bypassCooldown: true\<close> to
  discovery for an ordinary job (line 201), so a domain crawled one minute ago is
  crawled again.
\<close>

theorem pipeline_cooldown_counterexample:
  "\<not> (bypassCooldown (discoverOptionsFor (exampleJob ''J1'' Normal)) = False) \<and>
   DiscoverPages ''example.com'' 1 ''J1''
     \<lparr>optMaxPages = 25, bypassCooldown = True, cooldownMinutes = 5\<rparr> \<in> set (calls midExtraction) \<and>
   discoverPages_spec (discoverOptionsFor (exampleJob ''J1'' Normal)) (Some 1)
     (Some [examplePage ''/old'']) [examplePage ''/new''] = ([examplePage ''/new''], True)"
  by code_simp

text \<open>
  Claim C9, amended. Discovery as the spec describes it returns the stored page set
  (or none) without fetching when it is called with \<^verbatim>\<open>bypassCooldown\<close> false inside
  the cooldown window. The pipeline always calls discovery with \<^verbatim>\<open>bypassCooldown\<close>
  true, a cooldown of 5 minutes and \<^verbatim>\<open>job.maxPages || 25\<close>; with these options
  discovery crawls again whenever it is called.
\<close>

theorem pipeline_bypasses_cooldown:
  "(\<not> bypassCooldown opts \<and> m < cooldownMinutes opts \<longrightarrow>
      discoverPages_spec opts (Some m) stored fresh =
        ((case stored of Some ps \<Rightarrow> ps | None \<Rightarrow> []), False)) \<and>
   bypassCooldown (discoverOptionsFor j) \<and>
   cooldownMinutes (discoverOptionsFor j) = 5 \<and>
   optMaxPages (discoverOptionsFor j) =
     (case maxPages j of None \<Rightarrow> 25 | Some n \<Rightarrow> if n = 0 then 25 else n) \<and>
   calls (startDiscover r s) =
     calls s @ [DiscoverPages (domain (heap s ! r)) (depth (heap s ! r)) (jobId (heap s ! r))
                  (discoverOptionsFor (heap s ! r))] \<and>
   discoverPages_spec (discoverOptionsFor j) sinceLast stored fresh = (fresh, True)"
  by (simp add: discoverPages_spec_def discoverOptionsFor_def)

theorem pipeline_bypasses_cooldown_witness:
  "discoverPages_spec \<lparr>optMaxPages = 25, bypassCooldown = False, cooldownMinutes = 5\<rparr>
     (Some 1) (Some [examplePage ''/old'']) [examplePage ''/new''] = ([examplePage ''/old''], False) \<and>
   discoverPages_spec (discoverOptionsFor (exampleJob ''J1'' Normal)) (Some 1)
     (Some [examplePage ''/old'']) [examplePage ''/new''] = ([examplePage ''/new''], True)"
  using pipeline_bypasses_cooldown
    [of "\<lparr>optMaxPages = 25, bypassCooldown = False, cooldownMinutes = 5\<rparr>" 1
        "Some [examplePage ''/old'']" "[examplePage ''/new'']" "exampleJob ''J1'' Normal" 0
        "initial NoIO" "Some 1"]
  by simp

section \<open>A failing pipeline\<close>

text \<open>A site without pages whose results the store refuses to save.\<close>

definition storeDown :: job_env where
  "storeDown = noPages\<lparr>saveResults := Throws ''connection lost''\<rparr>"

text \<open>
  One slot. Job A (on \<open>storeDown\<close>) is submitted and started, job B is submitted and
  waits; A is resumed until its invocation ends.
\<close>

definition failingRun :: sched where
  "failingRun =
     run 1 (\<lambda>r. if r = 0 then storeDown else noPages) (initial IOWorks)
       [CallQueueJob (exampleJob ''A'' Normal) (Returns ()), Resume 0,
        CallQueueJob (exampleJob ''B'' Normal) (Returns ()), Resume 1,
        Resume 0, Resume 0, Resume 0, Resume 0, Resume 0]"

text \<open>
  Claim C5 fails on the code. When the store refuses the results, the \<^verbatim>\<open>catch\<close> of
  \<^verbatim>\<open>processJob\<close> (lines 516--519) logs and throws again, and nothing else: job A keeps
  the status processing (never failed) at progress 90, it stays in \<^verbatim>\<open>activeJobs\<close>, no
  invocation is left to free the slot, the last event published is the one of progress
  90, and job B is never started (a further \<^verbatim>\<open>processNextJob\<close> finds the slot taken).
\<close>

theorem pipeline_failure_leaks_slot:
  "status (heap failingRun ! 0) = Processing \<and>
   progress (heap failingRun ! 0) = 90 \<and>
   message (heap failingRun ! 0) = ''Saving minimal results'' \<and>
   activeJobs failingRun = [(''A'', 0)] \<and>
   tasks failingRun = [] \<and>
   normal failingRun = [1] \<and>
   status (heap failingRun ! 1) = Queued \<and>
   dispatched failingRun = [0] \<and>
   map (\<lambda>(room, name, d). (room, pStatus d, pProgress d)) (emitted failingRun) =
     [(''job-A'', Processing, 10), (''job-A'', Processing, 90)] \<and>
   unhandled failingRun =
     [''Failed to process job: Failed to save minimal results: connection lost''] \<and>
   processNextJob 1 failingRun = failingRun"
  by code_simp

section \<open>Runs of one pipeline\<close>



fun extractorOf :: "ext_call \<Rightarrow> extractor list" where
  "extractorOf (Extract x _ _) = [x]"
| "extractorOf _ = []"

definition extractorsCalled :: "sched \<Rightarrow> extractor list" where
  "extractorsCalled s = concat (map extractorOf (calls s))"

lemma processNextJob_calls:
  "\<exists>cs. calls (processNextJob lim s) = calls s @ cs \<and> concat (map extractorOf cs) = []"
proof -
  have "(\<lambda>s'. \<exists>cs. calls s' = calls s @ cs \<and> concat (map extractorOf cs) = [])
          (processNextJob lim s)"
  proof (rule processNextJob_preserves)
    fix r' s0 s1
    assume sh: "shiftNext s0 = Some (r', s1)"
      and P: "\<exists>cs. calls s0 = calls s @ cs \<and> concat (map extractorOf cs) = []"
    then obtain cs where "calls s0 = calls s @ cs" "concat (map extractorOf cs) = []" by blast
    then show "\<exists>cs. calls (processJob_start r' s1) = calls s @ cs \<and>
                    concat (map extractorOf cs) = []"
      using sh by (simp add: shiftNext_frame)
  qed simp
  then show ?thesis .
qed

lemma processNextJob_extractorsCalled [simp]:
  "extractorsCalled (processNextJob lim s) = extractorsCalled s"
  using processNextJob_calls [of lim s] by (auto simp: extractorsCalled_def)


lemma processNextJob_queued_subset:
  "set (queued (processNextJob lim s)) \<subseteq> set (queued s)"
proof -
  have "(\<lambda>s'. set (queued s') \<subseteq> set (queued s)) (processNextJob lim s)"
  proof (rule processNextJob_preserves)
    fix r' s0 s1
    assume "shiftNext s0 = Some (r', s1)" and "set (queued s0) \<subseteq> set (queued s)"
    then show "set (queued (processJob_start r' s1)) \<subseteq> set (queued s)"
      using shiftNext_queued [of s0 r' s1] by auto
  qed simp
  then show ?thesis .
qed

lemma queued_frame [simp]:
  "queued (upd_job r f s) = queued s" "queued (call c s) = queued s"
  "queued (logError m s) = queued s" "queued (reply x s) = queued s"
  "queued (suspend t s) = queued s" "queued (notifyWith r m s) = queued s"
  "queued (notify r s) = queued s" "queued (setProgress p m r s) = queued s"
  "queued (startDiscover r s) = queued s" "queued (startExtractor ex e s) = queued s"
  "queued (logThrown w y s) = queued s" "queued (processJob_catch m s) = queued s"
  "queued (minimal_catch m s) = queued s" "queued (completeJob m r s) = queued s"
  by (simp_all add: queued_def)


lemma finishJob_length [simp]: "length (heap (finishJob lim r s)) = length (heap s)"
  by (simp add: finishJob_def Let_def)

lemma finishJob_frame [simp]:
  "now (finishJob lim r s) = now s" "io (finishJob lim r s) = io s"
  "replies (finishJob lim r s) = replies s" "unhandled (finishJob lim r s) = unhandled s"
  by (simp_all add: finishJob_def Let_def)

lemma finishJob_queued_subset: "set (queued (finishJob lim r s)) \<subseteq> set (queued s)"
proof -
  have "set (queued (finishJob lim r s)) \<subseteq>
        set (queued (notify r s\<lparr>activeJobs := map_delete (jobId (heap s ! r)) (activeJobs s),
               completedJobs := map_set (jobId (heap s ! r)) r (completedJobs s)\<rparr>))"
    unfolding finishJob_def Let_def
    by (rule order_trans [OF processNextJob_queued_subset]) simp
  then show ?thesis by (simp add: queued_def)
qed

lemma finishJob_extractorsCalled [simp]:
  "extractorsCalled (finishJob lim r s) = extractorsCalled s"
  by (simp add: finishJob_def Let_def) (simp add: extractorsCalled_def)


lemma extractorsCalled_simps [simp]:
  "extractorsCalled (call c s) = extractorsCalled s @ extractorOf c"
  "extractorsCalled (upd_job r f s) = extractorsCalled s"
  "extractorsCalled (logError m s) = extractorsCalled s"
  "extractorsCalled (suspend t s) = extractorsCalled s"
  "extractorsCalled (notifyWith r m s) = extractorsCalled s"
  "extractorsCalled (notify r s) = extractorsCalled s"
  "extractorsCalled (setProgress p m r s) = extractorsCalled s"
  "extractorsCalled (startDiscover r s) = extractorsCalled s"
  "extractorsCalled (startExtractor x e s) = extractorsCalled s @ [x]"
  "extractorsCalled (logThrown w y s) = extractorsCalled s"
  "extractorsCalled (processJob_catch m s) = extractorsCalled s"
  "extractorsCalled (minimal_catch m s) = extractorsCalled s"
  "extractorsCalled (completeJob m r s) = extractorsCalled s"
  "extractorsCalled (processJob_start r s) = extractorsCalled s"
  by (simp_all add: extractorsCalled_def completeJob_def Let_def)

lemma completeJob_calls_mono [simp]:
  "c \<in> set (calls s) \<Longrightarrow> c \<in> set (calls (completeJob m r s))"
  by (simp add: completeJob_def Let_def)

section \<open>The job without pages\<close>


lemma processJob_start_job [simp]:
  "r < length (heap s) \<Longrightarrow> jobId (heap (processJob_start r s) ! r) = jobId (heap s ! r)"
  "r < length (heap s) \<Longrightarrow> domain (heap (processJob_start r s) ! r) = domain (heap s ! r)"
  by simp_all

text \<open>A job object alone in the heap, as \<^verbatim>\<open>processNextJob\<close> hands it to \<^verbatim>\<open>processJob\<close>.\<close>

definition oneJob :: sched where
  "oneJob = (initial IOWorks)\<lparr>heap := [exampleJob ''J1'' Normal]\<rparr>"





section \<open>The job with pages\<close>






section \<open>The concurrency limit\<close>

definition withinLimit :: "nat \<Rightarrow> sched \<Rightarrow> bool" where
  "withinLimit lim s = (map_size (activeJobs s) \<le> lim)"

lemma withinLimit_frame [simp]:
  "withinLimit lim (upd_job r f s) = withinLimit lim s"
  "withinLimit lim (call c s) = withinLimit lim s"
  "withinLimit lim (logError m s) = withinLimit lim s"
  "withinLimit lim (reply x s) = withinLimit lim s"
  "withinLimit lim (suspend t s) = withinLimit lim s"
  "withinLimit lim (notifyWith r m s) = withinLimit lim s"
  "withinLimit lim (notify r s) = withinLimit lim s"
  "withinLimit lim (setProgress p m r s) = withinLimit lim s"
  "withinLimit lim (startDiscover r s) = withinLimit lim s"
  "withinLimit lim (startExtractor ex e s) = withinLimit lim s"
  "withinLimit lim (logThrown w y s) = withinLimit lim s"
  "withinLimit lim (processJob_catch m s) = withinLimit lim s"
  "withinLimit lim (minimal_catch m s) = withinLimit lim s"
  "withinLimit lim (completeJob m r s) = withinLimit lim s"
  "withinLimit lim (push pr r s) = withinLimit lim s"
  by (simp_all add: withinLimit_def)

lemma map_size_set: "map_size (map_set k v m) \<le> Suc (map_size m)"
proof -
  have "length (map fst (AList.update k v m)) \<le> Suc (length (map fst m))"
    by (simp add: update_keys)
  then show ?thesis by (simp add: map_size_def map_set_def)
qed

lemma map_size_delete: "map_size (map_delete k m) \<le> map_size m"
  by (simp add: map_size_def map_delete_def length_delete_le)

lemma withinLimit_start:
  "map_size (activeJobs s) < lim \<Longrightarrow> withinLimit lim (processJob_start r s)"
  using map_size_set [of "jobId (heap s ! r)" r "activeJobs s"]
  by (simp add: withinLimit_def processJob_start_activeJobs)

lemma withinLimit_processNextJob:
  "withinLimit lim s \<Longrightarrow> withinLimit lim (processNextJob lim s)"
proof (rule processNextJob_preserves [where P = "withinLimit lim"])
  fix r s0 s1
  assume "shiftNext s0 = Some (r, s1)" and "map_size (activeJobs s0) < lim"
  then show "withinLimit lim (processJob_start r s1)"
    by (simp add: withinLimit_start shiftNext_frame)
qed

lemma withinLimit_finishJob:
  "withinLimit lim s \<Longrightarrow> withinLimit lim (finishJob lim r s)"
  unfolding finishJob_def Let_def
  by (rule withinLimit_processNextJob)
     (use map_size_delete [of "jobId (heap s ! r)" "activeJobs s"] in
       \<open>simp add: withinLimit_def\<close>)

lemma withinLimit_resume_pc:
  "withinLimit lim s \<Longrightarrow> withinLimit lim (snd (resume_pc lim e r pc s))"
  by (cases pc)
     (auto simp: Let_def withinLimit_finishJob
           split: result.splits list.splits option.splits)

lemma withinLimit_queueJob_cont:
  "withinLimit lim s \<Longrightarrow> withinLimit lim (queueJob_cont lim r resp s)"
  by (auto simp: queueJob_cont_def Let_def withinLimit_processNextJob
           split: result.splits option.splits)

lemma withinLimit_cancelJob_cont:
  "withinLimit lim s \<Longrightarrow> withinLimit lim (cancelJob_cont lim jid r resp s)"
proof (cases resp)
  case (Returns b)
  assume w: "withinLimit lim s"
  have "withinLimit lim (s\<lparr>activeJobs := map_delete jid (activeJobs s),
          completedJobs := map_set jid r (completedJobs s)\<rparr>)"
    using w map_size_delete [of jid "activeJobs s"] by (simp add: withinLimit_def)
  then show ?thesis using Returns
    by (simp add: cancelJob_cont_def Let_def withinLimit_processNextJob)
next
  case (Throws m)
  assume "withinLimit lim s"
  then show ?thesis using Throws by (simp add: cancelJob_cont_def cancelJob_catch_def)
qed

lemma withinLimit_enqueuePending:
  "withinLimit lim s \<Longrightarrow> withinLimit lim (foldl enqueuePending s js)"
proof (induction js arbitrary: s)
  case Nil
  then show ?case by simp
next
  case (Cons j js)
  have "withinLimit lim (enqueuePending s j)"
    using Cons.prems by (simp add: enqueuePending_def Let_def) (simp add: withinLimit_def)
  then show ?case using Cons.IH by simp
qed

lemma withinLimit_init_cont:
  "withinLimit lim s \<Longrightarrow> withinLimit lim (init_cont lim resp s)"
  by (auto simp: init_cont_def withinLimit_processNextJob withinLimit_enqueuePending
           split: result.splits)

lemma withinLimit_cancelJob_call:
  "withinLimit lim s \<Longrightarrow> withinLimit lim (cancelJob_call jid resp s)"
  by (auto simp: cancelJob_call_def cancelFound_def Let_def split: option.splits)
     (simp_all add: withinLimit_def)

lemma withinLimit_run_task:
  "withinLimit lim s \<Longrightarrow> withinLimit lim (run_task lim env t s)"
proof (cases t)
  case (Worker r pc)
  assume "withinLimit lim s"
  then have "withinLimit lim (snd (resume_pc lim (env r) r pc s))"
    by (rule withinLimit_resume_pc)
  then show ?thesis using Worker
    by (auto simp: run_task_def split: prod.splits option.splits)
next
  case (CancelQueuedCont resp)
  assume "withinLimit lim s"
  then show ?thesis using CancelQueuedCont
    by (auto simp: run_task_def cancelQueued_cont_def cancelJob_catch_def split: result.splits)
next
  case (CancelUnknownCont resp)
  assume "withinLimit lim s"
  then show ?thesis using CancelUnknownCont
    by (auto simp: run_task_def cancelUnknown_cont_def cancelJob_catch_def split: result.splits)
qed (auto simp: run_task_def withinLimit_queueJob_cont withinLimit_cancelJob_cont
       withinLimit_init_cont)

lemma withinLimit_step:
  assumes "withinLimit lim s"
  shows "withinLimit lim (step lim env s ev)"
proof (cases ev)
  case (Resume k)
  have "withinLimit lim (s\<lparr>tasks := splice1 k (tasks s)\<rparr>)"
    using assms by (simp add: withinLimit_def)
  then show ?thesis using Resume assms by (simp add: step_def withinLimit_run_task)
next
  case (CallCancelJob jid resp)
  then show ?thesis using assms by (simp add: step_def withinLimit_cancelJob_call)
next
  case (CallInit resp)
  then show ?thesis using assms by (simp add: step_def init_call_def)
next
  case (CallQueueJob j resp)
  then show ?thesis using assms
    by (simp add: step_def queueJob_call_def Let_def) (simp add: withinLimit_def)
next
  case (SetIO p)
  then show ?thesis using assms by (simp add: step_def withinLimit_def)
next
  case Tick
  then show ?thesis using assms by (simp add: step_def withinLimit_def)
qed

lemma withinLimit_run:
  "withinLimit lim s \<Longrightarrow> withinLimit lim (run lim env s evs)"
  unfolding run_def
  by (induction evs arbitrary: s) (simp_all add: withinLimit_step)

section \<open>Jobs with status processing\<close>

text \<open>
  The references that wait to be started: those in the three tiers and those of the
  \<^verbatim>\<open>queueJob\<close> invocations that wait for the store.
\<close>

fun queueContRefs :: "task \<Rightarrow> ref list" where
  "queueContRefs (QueueCont r _) = [r]"
| "queueContRefs _ = []"

definition pendingRefs :: "sched \<Rightarrow> ref list" where
  "pendingRefs s = queued s @ concat (map queueContRefs (tasks s))"

text \<open>
  What holds of a suspended invocation: a \<^verbatim>\<open>processJob\<close> invocation belongs to a job
  that was dispatched, and once it has marked its job complete the job is not
  processing; a \<^verbatim>\<open>cancelJob\<close> invocation that found its job active has marked it
  cancelled.
\<close>

fun taskOk :: "sched \<Rightarrow> task \<Rightarrow> bool" where
  "taskOk s (Worker r pc) =
     (r \<in> set (dispatched s) \<and>
      ((pc = AwaitUpdateMinimal \<or> pc = AwaitUpdateComplete) \<longrightarrow>
         status (heap s ! r) \<noteq> Processing))"
| "taskOk s (CancelActiveCont jid r _) =
     (r \<in> set (dispatched s) \<and> jobId (heap s ! r) = jid \<and> status (heap s ! r) \<noteq> Processing)"
| "taskOk s _ = True"

definition pendingOk :: "sched \<Rightarrow> bool" where
  "pendingOk s =
     (distinct (pendingRefs s) \<and>
      (\<forall>r \<in> set (pendingRefs s). r < length (heap s) \<and> r \<notin> set (dispatched s)))"

definition dispatchedOk :: "sched \<Rightarrow> bool" where
  "dispatchedOk s = (\<forall>r \<in> set (dispatched s). r < length (heap s))"

definition activeOk :: "sched \<Rightarrow> bool" where
  "activeOk s =
     (\<forall>p \<in> set (activeJobs s). snd p \<in> set (dispatched s) \<and> jobId (heap s ! snd p) = fst p)"

definition tasksOk :: "sched \<Rightarrow> bool" where
  "tasksOk s = (\<forall>t \<in> set (tasks s). taskOk s t)"

definition processingOk :: "sched \<Rightarrow> bool" where
  "processingOk s =
     (\<forall>r < length (heap s). status (heap s ! r) = Processing \<longrightarrow>
        (jobId (heap s ! r), r) \<in> set (activeJobs s))"

definition consistent :: "sched \<Rightarrow> bool" where
  "consistent s =
     (pendingOk s \<and> dispatchedOk s \<and> activeOk s \<and> tasksOk s \<and> processingOk s)"

definition ids :: "sched \<Rightarrow> string list" where
  "ids s = map jobId (heap s)"

definition uniqueIds :: "sched \<Rightarrow> bool" where
  "uniqueIds s = distinct (ids s)"

lemma taskOk_cong:
  "heap s' = heap s \<Longrightarrow> dispatched s' = dispatched s \<Longrightarrow> taskOk s' t = taskOk s t"
  by (cases t) simp_all

lemma pendingOk_cong:
  "length (heap s') = length (heap s) \<Longrightarrow> queued s' = queued s \<Longrightarrow> tasks s' = tasks s \<Longrightarrow>
   dispatched s' = dispatched s \<Longrightarrow> pendingOk s' = pendingOk s"
  by (simp add: pendingOk_def pendingRefs_def)

lemma dispatchedOk_cong:
  "length (heap s') = length (heap s) \<Longrightarrow> dispatched s' = dispatched s \<Longrightarrow>
   dispatchedOk s' = dispatchedOk s"
  by (simp add: dispatchedOk_def)

lemma activeOk_cong:
  "heap s' = heap s \<Longrightarrow> dispatched s' = dispatched s \<Longrightarrow> activeJobs s' = activeJobs s \<Longrightarrow>
   activeOk s' = activeOk s"
  by (simp add: activeOk_def)

lemma tasksOk_cong:
  "heap s' = heap s \<Longrightarrow> dispatched s' = dispatched s \<Longrightarrow> tasks s' = tasks s \<Longrightarrow>
   tasksOk s' = tasksOk s"
  by (simp add: tasksOk_def taskOk_cong [of s' s])

lemma processingOk_cong:
  "heap s' = heap s \<Longrightarrow> activeJobs s' = activeJobs s \<Longrightarrow> processingOk s' = processingOk s"
  by (simp add: processingOk_def)

lemma consistent_cong:
  assumes "heap s' = heap s" "queued s' = queued s"
    "tasks s' = tasks s" "dispatched s' = dispatched s" "activeJobs s' = activeJobs s"
  shows "consistent s' = consistent s"
  using assms
  by (simp add: consistent_def pendingOk_cong [of s' s] dispatchedOk_cong [of s' s]
        activeOk_cong [of s' s] tasksOk_cong [of s' s] processingOk_cong [of s' s])

lemma consistent_frame [simp]:
  "consistent (call c s) = consistent s"
  "consistent (logError m s) = consistent s"
  "consistent (reply x s) = consistent s"
  "consistent (notifyWith r m s) = consistent s"
  "consistent (notify r s) = consistent s"
  "consistent (startDiscover r s) = consistent s"
  "consistent (startExtractor ex e s) = consistent s"
  "consistent (logThrown w y s) = consistent s"
  "consistent (processJob_catch m s) = consistent s"
  "consistent (minimal_catch m s) = consistent s"
  by (rule consistent_cong; simp)+

lemma ids_frame [simp]:
  "ids (call c s) = ids s"
  "ids (logError m s) = ids s"
  "ids (reply x s) = ids s"
  "ids (suspend t s) = ids s"
  "ids (notifyWith r m s) = ids s"
  "ids (notify r s) = ids s"
  "ids (startDiscover r s) = ids s"
  "ids (startExtractor ex e s) = ids s"
  "ids (logThrown w y s) = ids s"
  "ids (processJob_catch m s) = ids s"
  "ids (minimal_catch m s) = ids s"
  "ids (push pr r s) = ids s"
  by (simp_all add: ids_def)

text \<open>A write to a job object that keeps its id and does not make it processing.\<close>

definition harmless :: "(job \<Rightarrow> job) \<Rightarrow> bool" where
  "harmless f = (\<forall>j. jobId (f j) = jobId j \<and> (status (f j) = Processing \<longrightarrow> status j = Processing))"

lemma map_jobId_update:
  "jobId (f (xs ! r)) = jobId (xs ! r) \<Longrightarrow> map jobId (xs[r := f (xs ! r)]) = map jobId xs"
  by (cases "r < length xs") (simp_all add: map_update list_update_same_conv list_update_beyond)

lemma ids_upd_job: "harmless f \<Longrightarrow> ids (upd_job r f s) = ids s"
  by (simp add: ids_def harmless_def map_jobId_update)

lemma nth_upd_jobId:
  "harmless f \<Longrightarrow> jobId ((xs[r := f (xs ! r)]) ! r') = jobId (xs ! r')"
  by (cases "r < length xs"; cases "r' = r") (simp_all add: harmless_def list_update_beyond)

lemma nth_upd_status:
  "harmless f \<Longrightarrow> status ((xs[r := f (xs ! r)]) ! r') = Processing \<Longrightarrow>
   status (xs ! r') = Processing"
  by (cases "r < length xs"; cases "r' = r") (simp_all add: harmless_def list_update_beyond)

lemma taskOk_upd_job:
  assumes "harmless f" and "taskOk s t"
  shows "taskOk (upd_job r f s) t"
proof (cases t)
  case (Worker r' pc)
  then show ?thesis using assms nth_upd_status [OF assms(1), of "heap s" r r'] by auto
next
  case (CancelActiveCont jid r' resp)
  then show ?thesis
    using assms nth_upd_status [OF assms(1), of "heap s" r r']
      nth_upd_jobId [OF assms(1), of "heap s" r r'] by auto
qed simp_all

lemma consistent_upd_job:
  assumes h: "harmless f" and c: "consistent s"
  shows "consistent (upd_job r f s)"
proof -
  have 1: "pendingOk (upd_job r f s)"
    using c by (simp add: consistent_def pendingOk_cong [of "upd_job r f s" s])
  have 2: "dispatchedOk (upd_job r f s)"
    using c by (simp add: consistent_def dispatchedOk_cong [of "upd_job r f s" s])
  have 3: "activeOk (upd_job r f s)"
    using c by (simp add: consistent_def activeOk_def nth_upd_jobId [OF h])
  have 4: "tasksOk (upd_job r f s)"
    using c by (simp add: consistent_def tasksOk_def taskOk_upd_job [OF h])
  have 5: "processingOk (upd_job r f s)"
    unfolding processingOk_def
  proof (intro allI impI)
    fix r'
    assume "r' < length (heap (upd_job r f s))"
      and "status (heap (upd_job r f s) ! r') = Processing"
    then have "r' < length (heap s)" "status (heap s ! r') = Processing"
      using nth_upd_status [OF h, of "heap s" r r'] by simp_all
    then have "(jobId (heap s ! r'), r') \<in> set (activeJobs s)"
      using c by (simp add: consistent_def processingOk_def)
    then show "(jobId (heap (upd_job r f s) ! r'), r') \<in> set (activeJobs (upd_job r f s))"
      by (simp add: nth_upd_jobId [OF h])
  qed
  from 1 2 3 4 5 show ?thesis by (simp add: consistent_def)
qed

lemma harmless_simps [simp]:
  "harmless (\<lambda>j. j\<lparr>progress := p, message := m\<rparr>)"
  "harmless (\<lambda>j. j\<lparr>progress := p\<rparr>)"
  "harmless (\<lambda>j. j\<lparr>status := Complete, progress := p, message := m, completedAt := t\<rparr>)"
  "harmless (\<lambda>j. j\<lparr>status := Cancelled, progress := p, message := m, completedAt := t\<rparr>)"
  by (simp_all add: harmless_def)

lemma consistent_setProgress [simp]:
  "consistent s \<Longrightarrow> consistent (setProgress p m r s)"
  by (simp add: setProgress_def consistent_upd_job)

lemma ids_setProgress [simp]: "ids (setProgress p m r s) = ids s"
  by (simp add: setProgress_def ids_upd_job)

lemma consistent_completeJob [simp]:
  "consistent s \<Longrightarrow> consistent (completeJob m r s)"
  by (simp add: completeJob_def Let_def consistent_upd_job)

lemma ids_completeJob [simp]: "ids (completeJob m r s) = ids s"
  by (simp add: completeJob_def Let_def ids_upd_job)

lemma pendingRefs_suspend [simp]:
  "pendingRefs (suspend t s) = pendingRefs s @ queueContRefs t"
  by (simp add: pendingRefs_def queued_def)

lemma consistent_suspend:
  assumes c: "consistent s" and t: "taskOk s t" and q: "queueContRefs t = []"
  shows "consistent (suspend t s)"
proof -
  have 1: "pendingOk (suspend t s)" using c q by (simp add: consistent_def pendingOk_def)
  have 2: "dispatchedOk (suspend t s)"
    using c by (simp add: consistent_def dispatchedOk_cong [of "suspend t s" s])
  have 3: "activeOk (suspend t s)"
    using c by (simp add: consistent_def activeOk_cong [of "suspend t s" s])
  have 4: "tasksOk (suspend t s)"
    using c t by (auto simp: consistent_def tasksOk_def taskOk_cong [of "suspend t s" s])
  have 5: "processingOk (suspend t s)"
    using c by (simp add: consistent_def processingOk_cong [of "suspend t s" s])
  from 1 2 3 4 5 show ?thesis by (simp add: consistent_def)
qed

text \<open>Taking a suspended invocation off the list, to resume it.\<close>

definition takeTask :: "nat \<Rightarrow> sched \<Rightarrow> sched" where
  "takeTask k s = s\<lparr>tasks := splice1 k (tasks s)\<rparr>"

lemma pendingRefs_takeTask:
  assumes "k < length (tasks s)"
  shows "\<exists>a b. pendingRefs s = a @ queueContRefs (tasks s ! k) @ b \<and>
               pendingRefs (takeTask k s) = a @ b"
proof -
  let ?ts = "tasks s"
  have ts: "?ts = take k ?ts @ ?ts ! k # drop (Suc k) ?ts"
    using assms by (rule id_take_nth_drop)
  let ?a = "queued s @ concat (map queueContRefs (take k ?ts))"
  let ?b = "concat (map queueContRefs (drop (Suc k) ?ts))"
  have "pendingRefs s = queued s @ concat (map queueContRefs (take k ?ts @ ?ts ! k # drop (Suc k) ?ts))"
    using ts by (simp add: pendingRefs_def)
  then have "pendingRefs s = ?a @ queueContRefs (?ts ! k) @ ?b" by simp
  moreover have "pendingRefs (takeTask k s) = ?a @ ?b"
    by (simp add: pendingRefs_def takeTask_def splice1_def queued_def)
  ultimately show ?thesis by blast
qed

lemma takeTask_frame [simp]:
  "heap (takeTask k s) = heap s" "dispatched (takeTask k s) = dispatched s"
  "activeJobs (takeTask k s) = activeJobs s" "queued (takeTask k s) = queued s"
  "ids (takeTask k s) = ids s" "high (takeTask k s) = high s" "normal (takeTask k s) = normal s"
  "low (takeTask k s) = low s"
  by (simp_all add: takeTask_def queued_def ids_def)

lemma set_splice1: "set (splice1 k xs) \<subseteq> set xs"
  by (auto simp: splice1_def dest: in_set_takeD in_set_dropD)

lemma consistent_takeTask:
  assumes c: "consistent s" and k: "k < length (tasks s)"
  shows "consistent (takeTask k s)"
proof -
  from pendingRefs_takeTask [OF k] obtain a b where
    ab: "pendingRefs s = a @ queueContRefs (tasks s ! k) @ b" "pendingRefs (takeTask k s) = a @ b"
    by blast
  have 1: "pendingOk (takeTask k s)"
    using c ab by (auto simp: consistent_def pendingOk_def)
  have 2: "dispatchedOk (takeTask k s)"
    using c by (simp add: consistent_def dispatchedOk_cong [of "takeTask k s" s])
  have 3: "activeOk (takeTask k s)"
    using c by (simp add: consistent_def activeOk_cong [of "takeTask k s" s])
  have 4: "tasksOk (takeTask k s)"
    unfolding tasksOk_def
  proof
    fix t
    assume "t \<in> set (tasks (takeTask k s))"
    then have "t \<in> set (tasks s)" using set_splice1 [of k "tasks s"] by (auto simp: takeTask_def)
    then have "taskOk s t" using c by (simp add: consistent_def tasksOk_def)
    then show "taskOk (takeTask k s) t" by (simp add: taskOk_cong [of "takeTask k s" s])
  qed
  have 5: "processingOk (takeTask k s)"
    using c by (simp add: consistent_def processingOk_cong [of "takeTask k s" s])
  from 1 2 3 4 5 show ?thesis by (simp add: consistent_def)
qed

lemma taken_taskOk:
  assumes c: "consistent s" and k: "k < length (tasks s)"
  shows "taskOk (takeTask k s) (tasks s ! k)"
proof -
  have "taskOk s (tasks s ! k)" using c k by (simp add: consistent_def tasksOk_def)
  then show ?thesis by (simp add: taskOk_cong [of "takeTask k s" s])
qed

lemma taken_QueueCont:
  assumes c: "consistent s" and k: "k < length (tasks s)" and t: "tasks s ! k = QueueCont r resp"
  shows "r < length (heap s) \<and> r \<notin> set (dispatched s) \<and> r \<notin> set (pendingRefs (takeTask k s))"
proof -
  from pendingRefs_takeTask [OF k] t obtain a b where
    ab: "pendingRefs s = a @ [r] @ b" "pendingRefs (takeTask k s) = a @ b"
    by auto
  then show ?thesis using c by (auto simp: consistent_def pendingOk_def)
qed

lemma set_map_set_cases:
  "p \<in> set (map_set k v al) \<Longrightarrow> p = (k, v) \<or> p \<in> set al"
  unfolding map_set_def by (induction al) (auto split: if_splits)

lemma map_set_same: "(k, v) \<in> set (map_set k v al)"
  unfolding map_set_def by (induction al) auto

lemma map_set_other: "p \<in> set al \<Longrightarrow> fst p \<noteq> k \<Longrightarrow> p \<in> set (map_set k v al)"
  unfolding map_set_def by (induction al) auto

lemma set_map_delete: "set (map_delete k al) = {p \<in> set al. fst p \<noteq> k}"
  unfolding map_delete_def by (induction al) auto

lemma uniqueIds_inj:
  "uniqueIds s \<Longrightarrow> r < length (heap s) \<Longrightarrow> r' < length (heap s) \<Longrightarrow>
   jobId (heap s ! r) = jobId (heap s ! r') \<Longrightarrow> r = r'"
  by (simp add: uniqueIds_def ids_def distinct_conv_nth) (metis)

lemma ids_processJob_start [simp]: "ids (processJob_start r s) = ids s"
  using map_jobId_update
    [of "\<lambda>j. j\<lparr>status := Processing, startedAt := Some (now s)\<rparr>" "heap s" r]
  by (simp add: ids_def)

lemma nth_started_jobId [simp]:
  "jobId (xs[r := (xs ! r)\<lparr>status := a, startedAt := b\<rparr>] ! r') = jobId (xs ! r')"
  by (cases "r < length xs"; cases "r' = r") (simp_all add: list_update_beyond)

lemma consistent_start:
  assumes sh: "shiftNext s = Some (r, s1)" and c: "consistent s" and u: "uniqueIds s"
  shows "consistent (processJob_start r s1)"
proof -
  let ?s2 = "processJob_start r s1"
  note fr = shiftNext_frame [OF sh]
  have q: "queued s = r # queued s1" by (rule shiftNext_queued [OF sh])
  have p: "pendingRefs s = r # pendingRefs s1" using q fr by (simp add: pendingRefs_def)
  have p2: "pendingRefs ?s2 = pendingRefs s1" by (simp add: pendingRefs_def)
  have pend: "distinct (r # pendingRefs s1)"
    "\<forall>x \<in> set (r # pendingRefs s1). x < length (heap s) \<and> x \<notin> set (dispatched s)"
    using c p by (simp_all add: consistent_def pendingOk_def)
  have r: "r < length (heap s)" "r \<notin> set (dispatched s)" using pend by simp_all
  have disp: "\<forall>x \<in> set (dispatched s). x < length (heap s)"
    using c by (simp add: consistent_def dispatchedOk_def)
  have 1: "pendingOk ?s2"
    unfolding pendingOk_def p2 using pend fr by auto
  have 2: "dispatchedOk ?s2"
    using disp r fr by (auto simp: dispatchedOk_def)
  have 3: "activeOk ?s2"
    unfolding activeOk_def
  proof
    fix x
    assume "x \<in> set (activeJobs ?s2)"
    then have "x = (jobId (heap s ! r), r) \<or> x \<in> set (activeJobs s)"
      using set_map_set_cases [of x "jobId (heap s ! r)" r "activeJobs s"] fr
      by (simp add: processJob_start_activeJobs)
    then show "snd x \<in> set (dispatched ?s2) \<and> jobId (heap ?s2 ! snd x) = fst x"
      using c fr by (auto simp: consistent_def activeOk_def)
  qed
  have 4: "tasksOk ?s2"
    unfolding tasksOk_def
  proof
    fix t
    assume "t \<in> set (tasks ?s2)"
    then have "t = Worker r AwaitUpdateProcessing \<or> t \<in> set (tasks s)" using fr by auto
    then show "taskOk ?s2 t"
    proof
      assume "t = Worker r AwaitUpdateProcessing"
      then show ?thesis by simp
    next
      assume "t \<in> set (tasks s)"
      then have ok: "taskOk s t" using c by (simp add: consistent_def tasksOk_def)
      show ?thesis
      proof (cases t)
        case (Worker r' pc)
        then have "r' \<noteq> r" using ok r by auto
        then show ?thesis using ok Worker fr by simp
      next
        case (CancelActiveCont jid r' resp)
        then have "r' \<noteq> r" using ok r by auto
        then show ?thesis using ok CancelActiveCont fr by simp
      qed simp_all
    qed
  qed
  have 5: "processingOk ?s2"
    unfolding processingOk_def
  proof (intro allI impI)
    fix r'
    assume r': "r' < length (heap ?s2)" and st: "status (heap ?s2 ! r') = Processing"
    show "(jobId (heap ?s2 ! r'), r') \<in> set (activeJobs ?s2)"
    proof (cases "r' = r")
      case True
      then show ?thesis using fr by (simp add: processJob_start_activeJobs map_set_same)
    next
      case False
      then have "status (heap s ! r') = Processing" "r' < length (heap s)"
        using st r' fr by simp_all
      then have in_a: "(jobId (heap s ! r'), r') \<in> set (activeJobs s)"
        using c by (simp add: consistent_def processingOk_def)
      have "jobId (heap s ! r') \<noteq> jobId (heap s ! r)"
        using uniqueIds_inj [OF u \<open>r' < length (heap s)\<close> r(1)] False by blast
      then show ?thesis
        using in_a fr map_set_other [of "(jobId (heap s ! r'), r')" "activeJobs s" "jobId (heap s ! r)" r]
        by (simp add: processJob_start_activeJobs)
    qed
  qed
  from 1 2 3 4 5 show ?thesis by (simp add: consistent_def)
qed

lemma ids_processNextJob [simp]: "ids (processNextJob lim s) = ids s"
proof (rule processNextJob_preserves [where P = "\<lambda>s'. ids s' = ids s"])
  fix r s0 s1
  assume sh: "shiftNext s0 = Some (r, s1)" and P: "ids s0 = ids s"
  have "ids s1 = ids s0" using shiftNext_frame(3) [OF sh] by (simp add: ids_def)
  then show "ids (processJob_start r s1) = ids s" using P by simp
qed simp

lemma consistent_processNextJob:
  assumes "consistent s" and "uniqueIds s"
  shows "consistent (processNextJob lim s)"
proof (rule processNextJob_preserves [where P = "\<lambda>s'. consistent s' \<and> ids s' = ids s", THEN conjunct1])
  fix r s0 s1
  assume sh: "shiftNext s0 = Some (r, s1)" and P: "consistent s0 \<and> ids s0 = ids s"
  then have "uniqueIds s0" using assms(2) by (simp add: uniqueIds_def)
  then have "consistent (processJob_start r s1)" using consistent_start [OF sh] P by simp
  moreover have "ids s1 = ids s0" using shiftNext_frame(3) [OF sh] by (simp add: ids_def)
  ultimately show "consistent (processJob_start r s1) \<and> ids (processJob_start r s1) = ids s"
    using P by simp
qed (use assms in simp)

lemma consistent_release:
  assumes c: "consistent s" and u: "uniqueIds s"
    and r: "r < length (heap s)" "jobId (heap s ! r) = jid" "status (heap s ! r) \<noteq> Processing"
  shows "consistent (s\<lparr>activeJobs := map_delete jid (activeJobs s), completedJobs := done\<rparr>)"
proof -
  let ?s2 = "s\<lparr>activeJobs := map_delete jid (activeJobs s), completedJobs := done\<rparr>"
  have 1: "pendingOk ?s2"
    using c by (simp add: consistent_def pendingOk_cong [of ?s2 s] queued_def)
  have 2: "dispatchedOk ?s2"
    using c by (simp add: consistent_def dispatchedOk_cong [of ?s2 s])
  have 3: "activeOk ?s2"
    using c by (simp add: consistent_def activeOk_def set_map_delete)
  have 4: "tasksOk ?s2"
    using c by (simp add: consistent_def tasksOk_cong [of ?s2 s])
  have 5: "processingOk ?s2"
    unfolding processingOk_def
  proof (intro allI impI)
    fix r'
    assume r': "r' < length (heap ?s2)" and st: "status (heap ?s2 ! r') = Processing"
    then have in_a: "(jobId (heap s ! r'), r') \<in> set (activeJobs s)"
      using c by (simp add: consistent_def processingOk_def)
    have "r' \<noteq> r" using st r by auto
    then have "jobId (heap s ! r') \<noteq> jid"
      using uniqueIds_inj [OF u _ r(1), of r'] r' r(2) by auto
    then show "(jobId (heap ?s2 ! r'), r') \<in> set (activeJobs ?s2)"
      using in_a by (simp add: set_map_delete)
  qed
  from 1 2 3 4 5 show ?thesis by (simp add: consistent_def)
qed

lemma ids_finishJob [simp]: "ids (finishJob lim r s) = ids s"
  by (simp add: finishJob_def Let_def) (simp add: ids_def)

lemma consistent_finishJob:
  assumes c: "consistent s" and u: "uniqueIds s"
    and r: "r < length (heap s)" "status (heap s ! r) \<noteq> Processing"
  shows "consistent (finishJob lim r s)"
proof -
  let ?s1 = "notify r s"
  let ?s3 = "?s1\<lparr>activeJobs := map_delete (jobId (heap ?s1 ! r)) (activeJobs ?s1),
                completedJobs := map_set (jobId (heap ?s1 ! r)) r (completedJobs ?s1)\<rparr>"
  have "consistent ?s3"
    by (rule consistent_release) (use c u r in \<open>simp_all add: uniqueIds_def\<close>)
  moreover have "ids ?s3 = ids s" by (simp add: ids_def)
  ultimately have "consistent (processNextJob lim ?s3)"
    using consistent_processNextJob [of ?s3 lim] u by (simp add: uniqueIds_def)
  then show ?thesis by (simp add: finishJob_def Let_def)
qed

lemma consistent_push:
  assumes c: "consistent s"
    and r: "r < length (heap s)" "r \<notin> set (pendingRefs s)" "r \<notin> set (dispatched s)"
  shows "consistent (push pr r s)"
proof -
  have 1: "pendingOk (push pr r s)"
    using c r by (cases pr) (auto simp: consistent_def pendingOk_def pendingRefs_def queued_def push_def)
  have 2: "dispatchedOk (push pr r s)"
    using c by (simp add: consistent_def dispatchedOk_cong [of "push pr r s" s])
  have 3: "activeOk (push pr r s)"
    using c by (simp add: consistent_def activeOk_cong [of "push pr r s" s])
  have 4: "tasksOk (push pr r s)"
    using c by (simp add: consistent_def tasksOk_cong [of "push pr r s" s])
  have 5: "processingOk (push pr r s)"
    using c by (simp add: consistent_def processingOk_cong [of "push pr r s" s])
  from 1 2 3 4 5 show ?thesis by (simp add: consistent_def)
qed

text \<open>A new job object enters the heap.\<close>

definition alloc :: "job \<Rightarrow> sched \<Rightarrow> sched" where
  "alloc j s = s\<lparr>heap := heap s @ [j]\<rparr>"

lemma alloc_frame [simp]:
  "heap (alloc j s) = heap s @ [j]" "dispatched (alloc j s) = dispatched s"
  "activeJobs (alloc j s) = activeJobs s" "tasks (alloc j s) = tasks s"
  "queued (alloc j s) = queued s" "pendingRefs (alloc j s) = pendingRefs s"
  "ids (alloc j s) = ids s @ [jobId j]"
  by (simp_all add: alloc_def queued_def pendingRefs_def ids_def)

lemma taskOk_alloc:
  assumes "dispatchedOk s" and "taskOk s t"
  shows "taskOk (alloc j s) t"
  using assms by (cases t) (auto simp: dispatchedOk_def nth_append)

lemma consistent_alloc:
  assumes c: "consistent s" and j: "status j \<noteq> Processing"
  shows "consistent (alloc j s)"
proof -
  have d: "dispatchedOk s" using c by (simp add: consistent_def)
  have 1: "pendingOk (alloc j s)"
    using c by (auto simp: consistent_def pendingOk_def)
  have 2: "dispatchedOk (alloc j s)"
    using d by (auto simp: dispatchedOk_def)
  have 3: "activeOk (alloc j s)"
    using c d by (auto simp: consistent_def activeOk_def dispatchedOk_def nth_append)
  have 4: "tasksOk (alloc j s)"
    using c d by (simp add: consistent_def tasksOk_def taskOk_alloc)
  have 5: "processingOk (alloc j s)"
    unfolding processingOk_def
  proof (intro allI impI)
    fix r
    assume r: "r < length (heap (alloc j s))" and st: "status (heap (alloc j s) ! r) = Processing"
    have "r < length (heap s)"
    proof (rule ccontr)
      assume "\<not> r < length (heap s)"
      then have "r = length (heap s)" using r by simp
      then show False using st j by simp
    qed
    then show "(jobId (heap (alloc j s) ! r), r) \<in> set (activeJobs (alloc j s))"
      using st c by (simp add: nth_append consistent_def processingOk_def)
  qed
  from 1 2 3 4 5 show ?thesis by (simp add: consistent_def)
qed

lemma fresh_after_alloc:
  assumes "consistent s"
  shows "length (heap s) \<notin> set (pendingRefs s)" "length (heap s) \<notin> set (dispatched s)"
  using assms by (auto simp: consistent_def pendingOk_def dispatchedOk_def)

lemma consistent_suspend_QueueCont:
  assumes c: "consistent s"
    and r: "r < length (heap s)" "r \<notin> set (pendingRefs s)" "r \<notin> set (dispatched s)"
  shows "consistent (suspend (QueueCont r resp) s)"
proof -
  let ?s2 = "suspend (QueueCont r resp) s"
  have 1: "pendingOk ?s2" using c r by (auto simp: consistent_def pendingOk_def)
  have 2: "dispatchedOk ?s2"
    using c by (simp add: consistent_def dispatchedOk_cong [of ?s2 s])
  have 3: "activeOk ?s2"
    using c by (simp add: consistent_def activeOk_cong [of ?s2 s])
  have 4: "tasksOk ?s2"
    using c by (auto simp: consistent_def tasksOk_def taskOk_cong [of ?s2 s])
  have 5: "processingOk ?s2"
    using c by (simp add: consistent_def processingOk_cong [of ?s2 s])
  from 1 2 3 4 5 show ?thesis by (simp add: consistent_def)
qed

lemma pendingRefs_call [simp]: "pendingRefs (call c s) = pendingRefs s"
  by (simp add: pendingRefs_def queued_def)

lemma queueJob_call_alloc:
  "queueJob_call j resp s = suspend (QueueCont (length (heap s)) resp) (call (SaveJob j) (alloc j s))"
  by (simp add: queueJob_call_def Let_def alloc_def)

lemma consistent_queueJob_call:
  assumes c: "consistent s" and j: "status j \<noteq> Processing"
  shows "consistent (queueJob_call j resp s)"
  unfolding queueJob_call_alloc
  by (rule consistent_suspend_QueueCont)
     (use consistent_alloc [OF c j] fresh_after_alloc [OF c] in simp_all)

lemma ids_queueJob_call: "ids (queueJob_call j resp s) = ids s @ [jobId j]"
  by (simp add: queueJob_call_alloc)

lemma enqueuePending_alloc:
  "enqueuePending s j =
     push (case priority j of Some p \<Rightarrow> p | None \<Rightarrow> Normal) (length (heap s))
       (alloc (if status j = Processing then j\<lparr>status := Queued\<rparr> else j) s)"
  by (simp add: enqueuePending_def Let_def alloc_def)

lemma consistent_enqueuePending:
  assumes c: "consistent s"
  shows "consistent (enqueuePending s j)"
  unfolding enqueuePending_alloc
  by (rule consistent_push)
     (use consistent_alloc [OF c, of "if status j = Processing then j\<lparr>status := Queued\<rparr> else j"]
        fresh_after_alloc [OF c] in simp_all)

lemma ids_enqueuePending: "ids (enqueuePending s j) = ids s @ [jobId j]"
  by (simp add: enqueuePending_alloc)

lemma consistent_foldl_enqueuePending:
  "consistent s \<Longrightarrow> consistent (foldl enqueuePending s js)"
  by (induction js arbitrary: s) (simp_all add: consistent_enqueuePending)

lemma ids_foldl_enqueuePending: "ids (foldl enqueuePending s js) = ids s @ map jobId js"
  by (induction js arbitrary: s) (simp_all add: ids_enqueuePending)

lemma ids_queueJob_cont [simp]: "ids (queueJob_cont lim r resp s) = ids s"
  by (simp add: queueJob_cont_def Let_def split: result.splits option.splits)

lemma consistent_queueJob_cont:
  assumes c: "consistent s" and u: "uniqueIds s"
    and r: "r < length (heap s)" "r \<notin> set (pendingRefs s)" "r \<notin> set (dispatched s)"
  shows "consistent (queueJob_cont lim r resp s)"
proof (cases resp)
  case (Throws m)
  then show ?thesis using c by (simp add: queueJob_cont_def)
next
  case (Returns x)
  show ?thesis
  proof (cases "priority (heap s ! r)")
    case None
    then show ?thesis using Returns c by (simp add: queueJob_cont_def)
  next
    case (Some pr)
    have p: "consistent (push pr r s)" using c r by (rule consistent_push)
    have "uniqueIds (push pr r s)" using u by (simp add: uniqueIds_def)
    from consistent_processNextJob [OF p this, of lim] p
    show ?thesis using Returns Some by (simp add: queueJob_cont_def Let_def)
  qed
qed

lemma ids_init_cont:
  "ids (init_cont lim resp s) = ids s @ (case resp of Returns js \<Rightarrow> map jobId js | Throws m \<Rightarrow> [])"
  by (simp add: init_cont_def ids_foldl_enqueuePending split: result.splits)

lemma consistent_init_cont:
  assumes c: "consistent s" and u: "uniqueIds (init_cont lim resp s)"
  shows "consistent (init_cont lim resp s)"
proof (cases resp)
  case (Throws m)
  then have "uniqueIds (logError (''Error initializing scrape manager: '' @ m) s)"
    using u by (simp add: uniqueIds_def ids_init_cont)
  then show ?thesis using Throws c consistent_processNextJob [of _ lim]
    by (simp add: init_cont_def)
next
  case (Returns js)
  let ?s1 = "foldl enqueuePending s js"
  have c1: "consistent ?s1" using c by (rule consistent_foldl_enqueuePending)
  have "uniqueIds ?s1" using u Returns
    by (simp add: uniqueIds_def ids_init_cont ids_foldl_enqueuePending)
  then show ?thesis using Returns c1 consistent_processNextJob [of ?s1 lim]
    by (simp add: init_cont_def)
qed

text \<open>Cancellation.\<close>

lemma distinct_splice1: "distinct xs \<Longrightarrow> distinct (splice1 i xs)"
  using set_take_disj_set_drop_if_distinct [of xs i "Suc i"]
  by (simp add: splice1_def)

lemma consistent_unqueue:
  assumes c: "consistent s"
  shows "consistent (s\<lparr>high := splice1 i (high s)\<rparr>)"
    and "consistent (s\<lparr>normal := splice1 i (normal s)\<rparr>)"
    and "consistent (s\<lparr>low := splice1 i (low s)\<rparr>)"
proof -
  have sub: "\<And>xs. set (splice1 i xs) \<subseteq> set (xs::ref list)" by (rule set_splice1)
  have p: "pendingOk s" using c by (simp add: consistent_def)
  have d: "\<And>xs. distinct xs \<Longrightarrow> distinct (splice1 i (xs::ref list))" by (rule distinct_splice1)
  have 1: "pendingOk (s\<lparr>high := splice1 i (high s)\<rparr>)"
    "pendingOk (s\<lparr>normal := splice1 i (normal s)\<rparr>)"
    "pendingOk (s\<lparr>low := splice1 i (low s)\<rparr>)"
    using p sub [of "high s"] sub [of "normal s"] sub [of "low s"]
      d [of "high s"] d [of "normal s"] d [of "low s"]
    by (auto simp: pendingOk_def pendingRefs_def queued_def)
  show "consistent (s\<lparr>high := splice1 i (high s)\<rparr>)"
    "consistent (s\<lparr>normal := splice1 i (normal s)\<rparr>)"
    "consistent (s\<lparr>low := splice1 i (low s)\<rparr>)"
    using c 1
    by (simp_all add: consistent_def dispatchedOk_def activeOk_def tasksOk_def processingOk_def
          taskOk_cong [of "s\<lparr>high := splice1 i (high s)\<rparr>" s]
          taskOk_cong [of "s\<lparr>normal := splice1 i (normal s)\<rparr>" s]
          taskOk_cong [of "s\<lparr>low := splice1 i (low s)\<rparr>" s])
qed

lemma consistent_cancelFound:
  "consistent s \<Longrightarrow> consistent (cancelFound r resp s)"
  by (simp add: cancelFound_def consistent_suspend)

lemma ids_cancelJob_call [simp]: "ids (cancelJob_call jid resp s) = ids s"
  by (simp add: cancelJob_call_def cancelFound_def Let_def ids_upd_job split: option.splits)
     (simp add: ids_def)

lemma consistent_cancelJob_call:
  assumes c: "consistent s"
  shows "consistent (cancelJob_call jid resp s)"
proof (cases "map_of (activeJobs s) jid")
  case (Some r)
  then have "(jid, r) \<in> set (activeJobs s)" by (rule map_of_SomeD)
  then have r: "r \<in> set (dispatched s)" "jobId (heap s ! r) = jid"
    using c by (auto simp: consistent_def activeOk_def)
  then have len: "r < length (heap s)" using c by (simp add: consistent_def dispatchedOk_def)
  let ?f = "\<lambda>j. j\<lparr>status := Cancelled, progress := 0, message := ''Job cancelled by user'',
                   completedAt := Some (now s)\<rparr>"
  let ?s1 = "upd_job r ?f s"
  have c1: "consistent ?s1" by (rule consistent_upd_job) (simp_all add: c)
  have "taskOk ?s1 (CancelActiveCont jid r resp)" using r len by simp
  then have "consistent (suspend (CancelActiveCont jid r resp)
                (call (UpdateJobStatus (jobId (heap ?s1 ! r)) Cancelled
                   (startedAt (heap ?s1 ! r)) (completedAt (heap ?s1 ! r))) ?s1))"
    using c1 by (intro consistent_suspend) (simp_all add: taskOk_cong [of "call _ ?s1" ?s1])
  then show ?thesis using Some by (simp add: cancelJob_call_def Let_def)
next
  case None
  show ?thesis using None c consistent_unqueue [OF c]
    by (auto simp: cancelJob_call_def Let_def consistent_cancelFound consistent_suspend
             split: option.splits)
qed

lemma ids_cancelJob_cont [simp]: "ids (cancelJob_cont lim jid r resp s) = ids s"
  by (simp add: cancelJob_cont_def cancelJob_catch_def Let_def split: result.splits)
     (simp add: ids_def)

lemma consistent_cancelJob_cont:
  assumes c: "consistent s" and u: "uniqueIds s" and t: "taskOk s (CancelActiveCont jid r resp)"
  shows "consistent (cancelJob_cont lim jid r resp s)"
proof (cases resp)
  case (Throws m)
  then show ?thesis using c by (simp add: cancelJob_cont_def cancelJob_catch_def)
next
  case (Returns b)
  have r: "r < length (heap s)" "jobId (heap s ! r) = jid" "status (heap s ! r) \<noteq> Processing"
    using t c by (auto simp: consistent_def dispatchedOk_def)
  let ?s2 = "s\<lparr>activeJobs := map_delete jid (activeJobs s),
               completedJobs := map_set jid r (completedJobs s)\<rparr>"
  have "consistent ?s2" using c u r by (rule consistent_release)
  moreover have "uniqueIds ?s2" using u by (simp add: uniqueIds_def ids_def)
  ultimately have "consistent (processNextJob lim ?s2)" by (rule consistent_processNextJob)
  then show ?thesis using Returns by (simp add: cancelJob_cont_def Let_def)
qed

text \<open>One resumption of a \<^verbatim>\<open>processJob\<close> invocation.\<close>

lemma ids_resume_pc [simp]: "ids (snd (resume_pc lim e r pc s)) = ids s"
  by (cases pc)
     (auto simp: Let_def ids_upd_job split: result.splits list.splits option.splits)

lemma consistent_resume_pc:
  assumes c: "consistent s" and u: "uniqueIds s" and t: "taskOk s (Worker r pc)"
  shows "consistent (snd (resume_pc lim e r pc s))"
proof -
  have r: "r < length (heap s)" using t c by (auto simp: consistent_def dispatchedOk_def)
  show ?thesis
  proof (cases pc)
    case AwaitUpdateMinimal
    then have "status (heap s ! r) \<noteq> Processing" using t by simp
    then show ?thesis using AwaitUpdateMinimal c u r
      by (auto simp: consistent_finishJob split: result.splits)
  next
    case AwaitUpdateComplete
    then have "status (heap s ! r) \<noteq> Processing" using t by simp
    then show ?thesis using AwaitUpdateComplete c u r
      by (auto simp: consistent_finishJob split: result.splits)
  next
    case (AwaitPageContent i)
    then show ?thesis using c
      by (auto simp: Let_def consistent_upd_job split: result.splits)
  qed (use c in \<open>auto simp: Let_def split: result.splits list.splits option.splits\<close>)
qed

lemma taskOk_resume_pc:
  assumes c: "consistent s" and t: "taskOk s (Worker r pc)"
    and res: "resume_pc lim e r pc s = (Some pc', s')"
  shows "taskOk s' (Worker r pc')"
proof -
  have r: "r < length (heap s)" "r \<in> set (dispatched s)"
    using t c by (auto simp: consistent_def dispatchedOk_def)
  show ?thesis using res r
    by (cases pc)
       (auto simp: Let_def split: result.splits list.splits option.splits if_splits)
qed

lemma ids_run_task:
  "ids (run_task lim env t s) =
     ids s @ (case t of InitCont (Returns js) \<Rightarrow> map jobId js | _ \<Rightarrow> [])"
proof (cases t)
  case (Worker r pc)
  obtain o' s' where res: "resume_pc lim (env r) r pc s = (o', s')"
    by (cases "resume_pc lim (env r) r pc s")
  have "ids (snd (resume_pc lim (env r) r pc s)) = ids s" by simp
  then have "ids s' = ids s" using res by simp
  then show ?thesis using Worker res
    by (cases o') (simp_all add: run_task_def)
next
  case (InitCont resp)
  then show ?thesis by (simp add: run_task_def ids_init_cont split: result.splits)
qed (simp_all add: run_task_def cancelQueued_cont_def cancelUnknown_cont_def cancelJob_catch_def
       split: result.splits)

lemma consistent_run_task:
  assumes c: "consistent (takeTask k s)" and t: "taskOk (takeTask k s) (tasks s ! k)"
    and q: "\<And>r resp. tasks s ! k = QueueCont r resp \<Longrightarrow>
              r < length (heap s) \<and> r \<notin> set (dispatched s) \<and>
              r \<notin> set (pendingRefs (takeTask k s))"
    and u: "uniqueIds (run_task lim env (tasks s ! k) (takeTask k s))"
  shows "consistent (run_task lim env (tasks s ! k) (takeTask k s))"
proof -
  let ?s = "takeTask k s"
  have u0: "uniqueIds ?s" using u by (simp add: uniqueIds_def ids_run_task)
  show ?thesis
  proof (cases "tasks s ! k")
    case (Worker r pc)
    obtain o' s' where res: "resume_pc lim (env r) r pc ?s = (o', s')"
      by (cases "resume_pc lim (env r) r pc ?s")
    have cs: "consistent s'"
      using consistent_resume_pc [OF c u0, of r pc lim "env r"] t Worker res by simp
    show ?thesis
    proof (cases o')
      case None
      then show ?thesis using Worker res cs by (simp add: run_task_def)
    next
      case (Some pc')
      have "taskOk s' (Worker r pc')"
        using taskOk_resume_pc [OF c _ res [unfolded Some]] t Worker by simp
      then have "consistent (suspend (Worker r pc') s')"
        using cs by (intro consistent_suspend) simp_all
      then show ?thesis using Worker res Some by (simp add: run_task_def)
    qed
  next
    case (QueueCont r resp)
    from q [OF this] show ?thesis using QueueCont c u0
      by (simp add: run_task_def consistent_queueJob_cont)
  next
    case (CancelActiveCont jid r resp)
    then show ?thesis using c u0 t
      by (simp add: run_task_def consistent_cancelJob_cont)
  next
    case (CancelQueuedCont resp)
    then show ?thesis using c
      by (simp add: run_task_def cancelQueued_cont_def cancelJob_catch_def split: result.splits)
  next
    case (CancelUnknownCont resp)
    then show ?thesis using c
      by (simp add: run_task_def cancelUnknown_cont_def cancelJob_catch_def split: result.splits)
  next
    case (InitCont resp)
    then show ?thesis using c u by (simp add: run_task_def consistent_init_cont)
  qed
qed

text \<open>The jobs a caller submits have the status queued.\<close>

fun submitsQueued :: "event \<Rightarrow> bool" where
  "submitsQueued (CallQueueJob j _) = (status j = Queued)"
| "submitsQueued _ = True"

lemma step_Resume:
  "k < length (tasks s) \<Longrightarrow>
   step lim env s (Resume k) = run_task lim env (tasks s ! k) (takeTask k s)"
  by (simp add: step_def takeTask_def)

lemma ids_step: "\<exists>js. ids (step lim env s ev) = ids s @ js"
proof (cases ev)
  case (Resume k)
  then show ?thesis
    by (cases "k < length (tasks s)") (simp_all add: step_Resume ids_run_task, simp add: step_def)
qed (simp_all add: step_def init_call_def ids_queueJob_call, simp_all add: ids_def)

lemma consistent_step:
  assumes c: "consistent s" and u: "uniqueIds (step lim env s ev)" and q: "submitsQueued ev"
  shows "consistent (step lim env s ev)"
proof (cases ev)
  case (CallInit resp)
  then show ?thesis using c by (simp add: step_def init_call_def consistent_suspend)
next
  case (CallQueueJob j resp)
  then show ?thesis using c q by (simp add: step_def consistent_queueJob_call)
next
  case (CallCancelJob jid resp)
  then show ?thesis using c by (simp add: step_def consistent_cancelJob_call)
next
  case (Resume k)
  show ?thesis
  proof (cases "k < length (tasks s)")
    case True
    have "consistent (run_task lim env (tasks s ! k) (takeTask k s))"
    proof (rule consistent_run_task)
      show "consistent (takeTask k s)" using c True by (rule consistent_takeTask)
      show "taskOk (takeTask k s) (tasks s ! k)" using c True by (rule taken_taskOk)
      show "uniqueIds (run_task lim env (tasks s ! k) (takeTask k s))"
        using u Resume True by (simp add: step_Resume)
    next
      fix r resp
      assume "tasks s ! k = QueueCont r resp"
      then show "r < length (heap s) \<and> r \<notin> set (dispatched s) \<and>
                 r \<notin> set (pendingRefs (takeTask k s))"
        using taken_QueueCont [OF c True] by simp
    qed
    then show ?thesis using Resume True by (simp add: step_Resume)
  next
    case False
    then show ?thesis using Resume c by (simp add: step_def)
  qed
next
  case (SetIO p)
  then show ?thesis using c consistent_cong [of "s\<lparr>io := p\<rparr>" s]
    by (simp add: step_def queued_def)
next
  case Tick
  then show ?thesis using c consistent_cong [of "s\<lparr>now := now s + 1\<rparr>" s]
    by (simp add: step_def queued_def)
qed

lemma ids_run: "\<exists>js. ids (run lim env s evs) = ids s @ js"
proof (induction evs arbitrary: s)
  case Nil
  then show ?case by (simp add: run_def)
next
  case (Cons ev evs)
  obtain js where 1: "ids (step lim env s ev) = ids s @ js" using ids_step by blast
  obtain ks where "ids (run lim env (step lim env s ev) evs) = ids (step lim env s ev) @ ks"
    using Cons.IH by blast
  then show ?case using 1 by (simp add: run_def)
qed

lemma consistent_run:
  assumes "consistent s" and "uniqueIds (run lim env s evs)" and "\<forall>ev \<in> set evs. submitsQueued ev"
  shows "consistent (run lim env s evs)"
  using assms
proof (induction evs arbitrary: s)
  case Nil
  then show ?case by (simp add: run_def)
next
  case (Cons ev evs)
  have r: "run lim env s (ev # evs) = run lim env (step lim env s ev) evs" by (simp add: run_def)
  obtain ks where "ids (run lim env (step lim env s ev) evs) = ids (step lim env s ev) @ ks"
    using ids_run by blast
  then have "uniqueIds (step lim env s ev)" using Cons.prems(2) r by (simp add: uniqueIds_def)
  then have "consistent (step lim env s ev)" using Cons.prems by (simp add: consistent_step)
  then show ?case using Cons.IH Cons.prems r by simp
qed

text \<open>The jobs whose status is processing.\<close>

definition processingJobs :: "sched \<Rightarrow> ref list" where
  "processingJobs s = filter (\<lambda>r. status (heap s ! r) = Processing) [0..<length (heap s)]"

lemma processing_le_active:
  assumes "consistent s"
  shows "length (processingJobs s) \<le> map_size (activeJobs s)"
proof -
  let ?f = "\<lambda>r. (jobId (heap s ! r), r)"
  have d: "distinct (processingJobs s)" by (simp add: processingJobs_def)
  have "?f ` set (processingJobs s) \<subseteq> set (activeJobs s)"
    using assms by (auto simp: processingJobs_def consistent_def processingOk_def)
  moreover have "inj_on ?f (set (processingJobs s))" by (rule inj_onI) simp
  ultimately have "card (set (processingJobs s)) \<le> card (set (activeJobs s))"
    by (metis card_image card_mono List.finite_set)
  also have "\<dots> \<le> length (activeJobs s)" by (rule card_length)
  finally show ?thesis using d by (simp add: distinct_card map_size_def)
qed

lemma consistent_initial: "consistent (initial p)"
  by (simp add: consistent_def pendingOk_def dispatchedOk_def activeOk_def tasksOk_def
        processingOk_def pendingRefs_def queued_def initial_def)

lemma length_filter_nth:
  "length (filter P xs) = length (filter (\<lambda>i. P (xs ! i)) [0..<length xs])"
proof -
  have "filter P (map (\<lambda>i. xs ! i) [0..<length xs]) =
        map (\<lambda>i. xs ! i) (filter (P \<circ> (\<lambda>i. xs ! i)) [0..<length xs])"
    by (rule filter_map)
  then have "length (filter P (map (\<lambda>i. xs ! i) [0..<length xs])) =
             length (filter (\<lambda>i. P (xs ! i)) [0..<length xs])"
    by (simp add: comp_def)
  then show ?thesis by (simp add: map_nth)
qed

lemma processing_count:
  "length (filter (\<lambda>j. status j = Processing) (heap s)) = length (processingJobs s)"
  unfolding processingJobs_def by (rule length_filter_nth)

text \<open>Three jobs submitted with one slot: the first is processing, two wait.\<close>

definition threeSubmitted :: "event list" where
  "threeSubmitted =
     [CallQueueJob (exampleJob ''H1'' High) (Returns ()), Resume 0,
      CallQueueJob (exampleJob ''N1'' Normal) (Returns ()), Resume 1,
      CallQueueJob (exampleJob ''H2'' High) (Returns ()), Resume 1]"

text \<open>
  Claim C4. In every state that the system reaches from the initial one, whatever the
  calls, the answers of the collaborators and the order of the resumptions,
  \<^verbatim>\<open>activeJobs.size\<close> is at most the limit: \<^verbatim>\<open>processNextJob\<close> starts a job only
  while the size is below the limit (lines 111 and 131), and \<^verbatim>\<open>queueJob\<close> checks the
  same before it calls \<^verbatim>\<open>processNextJob\<close> (line 93). When the job objects that
  entered the system have pairwise different ids and every job was submitted with the
  status queued, the number of job objects whose status is processing is at most the
  limit as well.
\<close>

theorem concurrency_limit:
  "map_size (activeJobs (run lim env (initial p) evs)) \<le> lim \<and>
   (distinct (map jobId (heap (run lim env (initial p) evs))) \<and>
    (\<forall>ev \<in> set evs. submitsQueued ev) \<longrightarrow>
      length (filter (\<lambda>j. status j = Processing) (heap (run lim env (initial p) evs))) \<le> lim)"
proof -
  let ?s = "run lim env (initial p) evs"
  have "withinLimit lim (initial p)" by (simp add: withinLimit_def initial_def map_size_def)
  then have "withinLimit lim ?s" by (rule withinLimit_run)
  then have size: "map_size (activeJobs ?s) \<le> lim" by (simp add: withinLimit_def)
  have "length (filter (\<lambda>j. status j = Processing) (heap ?s)) \<le> lim"
    if u: "distinct (map jobId (heap ?s))" and q: "\<forall>ev \<in> set evs. submitsQueued ev"
  proof -
    have "uniqueIds ?s" using u by (simp add: uniqueIds_def ids_def)
    then have "consistent ?s" using consistent_initial q by (intro consistent_run)
    then have "length (processingJobs ?s) \<le> map_size (activeJobs ?s)"
      by (rule processing_le_active)
    then show ?thesis using size by (simp add: processing_count)
  qed
  then show ?thesis using size by blast
qed

theorem concurrency_limit_witness:
  "distinct (map jobId (heap (run 1 (\<lambda>_. noPages) (initial IOWorks) threeSubmitted))) \<and>
   map status (heap (run 1 (\<lambda>_. noPages) (initial IOWorks) threeSubmitted)) =
     [Processing, Queued, Queued] \<and>
   map_size (activeJobs (run 1 (\<lambda>_. noPages) (initial IOWorks) threeSubmitted)) \<le> 1 \<and>
   length (filter (\<lambda>j. status j = Processing)
             (heap (run 1 (\<lambda>_. noPages) (initial IOWorks) threeSubmitted))) \<le> 1"
proof -
  have a: "distinct (map jobId (heap (run 1 (\<lambda>_. noPages) (initial IOWorks) threeSubmitted)))"
    by code_simp
  have b: "\<forall>ev \<in> set threeSubmitted. submitsQueued ev"
    by (simp add: threeSubmitted_def exampleJob_def)
  have c: "map status (heap (run 1 (\<lambda>_. noPages) (initial IOWorks) threeSubmitted)) =
      [Processing, Queued, Queued]"
    by code_simp
  from concurrency_limit [of 1 "\<lambda>_. noPages" IOWorks threeSubmitted] a b c
  show ?thesis by blast
qed

section \<open>Cancellation and the running pipeline\<close>

text \<open>
  The job of \<open>midExtraction\<close> (processing, progress 60, its pipeline waiting for the
  image extractor) is cancelled and \<^verbatim>\<open>cancelJob\<close> runs to its end; then the pipeline is
  resumed until it ends.
\<close>

definition cancelledMid :: sched where
  "cancelledMid =
     run 5 (\<lambda>_. twoPages) midExtraction [CallCancelJob ''J1'' (Returns True), Resume 1]"

definition afterCancel :: sched where
  "afterCancel =
     run 5 (\<lambda>_. twoPages) cancelledMid
       [Resume 0, Resume 0, Resume 0, Resume 0, Resume 0, Resume 0, Resume 0, Resume 0]"

text \<open>
  Claim C6, as stated, fails for a job cancelled while processing: after the
  cancellation the pipeline calls the five remaining extractors, publishes two more
  events (progress 80 and 100) and sets the status of the cancelled job to complete.
\<close>

theorem cancel_processing_counterexample:
  "status (heap midExtraction ! 0) = Processing \<and>
   status (heap cancelledMid ! 0) = Cancelled \<and>
   replies cancelledMid =
     replies midExtraction @ [CancelJobReturned True ''Job cancelled successfully''] \<and>
   extractorsCalled cancelledMid = [EnhancedImage] \<and>
   extractorsCalled afterCancel = [EnhancedImage, SocialMedia, Blog, Color, General, Isbn] \<and>
   map (\<lambda>(room, name, d). (room, pStatus d, pProgress d))
       (drop (length (emitted cancelledMid)) (emitted afterCancel)) =
     [(''job-J1'', Cancelled, 80), (''job-J1'', Complete, 100)] \<and>
   status (heap afterCancel ! 0) = Complete"
  by code_simp

text \<open>The control flow of \<^verbatim>\<open>processJob\<close> never reads the state: it has no cancellation check.\<close>

lemma resume_pc_control: "fst (resume_pc lim e r pc s) = fst (resume_pc lim e r pc s')"
  by (cases pc) (simp_all add: Let_def split: result.splits list.splits option.splits)

text \<open>
  A job object that is neither waiting to be started nor processing stays so.
\<close>

definition dormant :: "ref \<Rightarrow> sched \<Rightarrow> bool" where
  "dormant r s =
     (r < length (heap s) \<and> r \<notin> set (pendingRefs s) \<and> status (heap s ! r) \<noteq> Processing)"

lemma dormant_cong:
  "heap s' = heap s \<Longrightarrow> queued s' = queued s \<Longrightarrow> tasks s' = tasks s \<Longrightarrow>
   dormant r s' = dormant r s"
  by (simp add: dormant_def pendingRefs_def)

lemma dormant_frame [simp]:
  "dormant r (call c s) = dormant r s"
  "dormant r (logError m s) = dormant r s"
  "dormant r (reply x s) = dormant r s"
  "dormant r (notifyWith r' m s) = dormant r s"
  "dormant r (notify r' s) = dormant r s"
  "dormant r (startDiscover r' s) = dormant r s"
  "dormant r (startExtractor ex e s) = dormant r s"
  "dormant r (logThrown w y s) = dormant r s"
  "dormant r (processJob_catch m s) = dormant r s"
  "dormant r (minimal_catch m s) = dormant r s"
  by (rule dormant_cong; simp)+

lemma dormant_upd_job:
  assumes "harmless f" and "dormant r s"
  shows "dormant r (upd_job r' f s)"
  using assms nth_upd_status [OF assms(1), of "heap s" r' r]
  by (auto simp: dormant_def pendingRefs_def)

lemma dormant_setProgress [simp]: "dormant r s \<Longrightarrow> dormant r (setProgress p m r' s)"
  by (simp add: setProgress_def dormant_upd_job)

lemma dormant_completeJob [simp]: "dormant r s \<Longrightarrow> dormant r (completeJob m r' s)"
  by (simp add: completeJob_def Let_def dormant_upd_job)

lemma dormant_suspend:
  "dormant r s \<Longrightarrow> r \<notin> set (queueContRefs t) \<Longrightarrow> dormant r (suspend t s)"
  by (simp add: dormant_def)

lemma dormant_takeTask:
  assumes "dormant r s" and k: "k < length (tasks s)"
  shows "dormant r (takeTask k s)" and "r \<notin> set (queueContRefs (tasks s ! k))"
proof -
  from pendingRefs_takeTask [OF k] obtain a b where
    ab: "pendingRefs s = a @ queueContRefs (tasks s ! k) @ b" "pendingRefs (takeTask k s) = a @ b"
    by blast
  show "dormant r (takeTask k s)" "r \<notin> set (queueContRefs (tasks s ! k))"
    using assms(1) ab by (auto simp: dormant_def)
qed

lemma dormant_start:
  assumes sh: "shiftNext s = Some (r', s1)" and d: "dormant r s"
  shows "dormant r (processJob_start r' s1)"
proof -
  note fr = shiftNext_frame [OF sh]
  have p: "pendingRefs s = r' # pendingRefs s1"
    using shiftNext_queued [OF sh] fr by (simp add: pendingRefs_def)
  have p2: "pendingRefs (processJob_start r' s1) = pendingRefs s1" by (simp add: pendingRefs_def)
  have "r' \<noteq> r" using d p by (auto simp: dormant_def)
  then show ?thesis using d p p2 fr by (simp add: dormant_def)
qed

lemma dormant_processNextJob: "dormant r s \<Longrightarrow> dormant r (processNextJob lim s)"
  by (rule processNextJob_preserves [where P = "dormant r"]) (simp_all add: dormant_start)

lemma dormant_release:
  "dormant r s \<Longrightarrow> dormant r (s\<lparr>activeJobs := a, completedJobs := c\<rparr>)"
  by (simp add: dormant_def pendingRefs_def queued_def)

lemma dormant_finishJob: "dormant r s \<Longrightarrow> dormant r (finishJob lim r' s)"
  by (simp add: finishJob_def Let_def dormant_processNextJob dormant_release)

lemma dormant_push: "dormant r s \<Longrightarrow> r' \<noteq> r \<Longrightarrow> dormant r (push pr r' s)"
  by (cases pr) (simp_all add: dormant_def pendingRefs_def queued_def push_def)

lemma dormant_alloc: "dormant r s \<Longrightarrow> dormant r (alloc j s)"
  by (simp add: dormant_def nth_append)

lemma dormant_queueJob_call: "dormant r s \<Longrightarrow> dormant r (queueJob_call j resp s)"
  unfolding queueJob_call_alloc
  by (rule dormant_suspend) (simp_all add: dormant_alloc, simp add: dormant_def)

lemma dormant_queueJob_cont:
  "dormant r s \<Longrightarrow> r' \<noteq> r \<Longrightarrow> dormant r (queueJob_cont lim r' resp s)"
  by (simp add: queueJob_cont_def Let_def dormant_processNextJob dormant_push
           split: result.splits option.splits)

lemma dormant_enqueuePending: "dormant r s \<Longrightarrow> dormant r (enqueuePending s j)"
  unfolding enqueuePending_alloc
  by (rule dormant_push) (simp_all add: dormant_alloc, simp add: dormant_def)

lemma dormant_foldl_enqueuePending: "dormant r s \<Longrightarrow> dormant r (foldl enqueuePending s js)"
  by (induction js arbitrary: s) (simp_all add: dormant_enqueuePending)

lemma dormant_init_cont: "dormant r s \<Longrightarrow> dormant r (init_cont lim resp s)"
  by (simp add: init_cont_def dormant_processNextJob dormant_foldl_enqueuePending
           split: result.splits)

lemma dormant_unqueue:
  assumes "dormant r s"
  shows "dormant r (s\<lparr>high := splice1 i (high s)\<rparr>)"
    "dormant r (s\<lparr>normal := splice1 i (normal s)\<rparr>)"
    "dormant r (s\<lparr>low := splice1 i (low s)\<rparr>)"
  using assms set_splice1 [of i "high s"] set_splice1 [of i "normal s"] set_splice1 [of i "low s"]
  by (auto simp: dormant_def pendingRefs_def queued_def)

lemma dormant_cancelJob_call:
  assumes d: "dormant r s"
  shows "dormant r (cancelJob_call jid resp s)"
proof (cases "map_of (activeJobs s) jid")
  case (Some r')
  have "dormant r (upd_job r' (\<lambda>j. j\<lparr>status := Cancelled, progress := 0,
          message := ''Job cancelled by user'', completedAt := Some (now s)\<rparr>) s)"
    by (rule dormant_upd_job) (simp_all add: d)
  then show ?thesis using Some by (simp add: cancelJob_call_def Let_def dormant_suspend)
next
  case None
  then show ?thesis using d dormant_unqueue [OF d]
    by (auto simp: cancelJob_call_def cancelFound_def Let_def dormant_suspend
             split: option.splits)
qed

lemma dormant_cancelJob_cont: "dormant r s \<Longrightarrow> dormant r (cancelJob_cont lim jid r' resp s)"
  by (simp add: cancelJob_cont_def cancelJob_catch_def Let_def dormant_processNextJob
        dormant_release split: result.splits)

lemma dormant_resume_pc: "dormant r s \<Longrightarrow> dormant r (snd (resume_pc lim e r' pc s))"
  by (cases pc)
     (auto simp: Let_def dormant_upd_job dormant_finishJob
           split: result.splits list.splits option.splits)

lemma dormant_run_task:
  assumes d: "dormant r s" and t: "r \<notin> set (queueContRefs t)"
  shows "dormant r (run_task lim env t s)"
proof (cases t)
  case (Worker r' pc)
  obtain o' s' where res: "resume_pc lim (env r') r' pc s = (o', s')"
    by (cases "resume_pc lim (env r') r' pc s")
  have "dormant r s'" using dormant_resume_pc [OF d, of lim "env r'" r' pc] res by simp
  then show ?thesis using Worker res by (cases o') (simp_all add: run_task_def dormant_suspend)
next
  case (QueueCont r' resp)
  then show ?thesis using d t by (simp add: run_task_def dormant_queueJob_cont)
next
  case (CancelActiveCont jid r' resp)
  then show ?thesis using d by (simp add: run_task_def dormant_cancelJob_cont)
next
  case (CancelQueuedCont resp)
  then show ?thesis using d
    by (simp add: run_task_def cancelQueued_cont_def cancelJob_catch_def split: result.splits)
next
  case (CancelUnknownCont resp)
  then show ?thesis using d
    by (simp add: run_task_def cancelUnknown_cont_def cancelJob_catch_def split: result.splits)
next
  case (InitCont resp)
  then show ?thesis using d by (simp add: run_task_def dormant_init_cont)
qed

lemma dormant_step:
  assumes d: "dormant r s"
  shows "dormant r (step lim env s ev)"
proof (cases ev)
  case (CallInit resp)
  then show ?thesis using d by (simp add: step_def init_call_def dormant_suspend)
next
  case (CallQueueJob j resp)
  then show ?thesis using d by (simp add: step_def dormant_queueJob_call)
next
  case (CallCancelJob jid resp)
  then show ?thesis using d by (simp add: step_def dormant_cancelJob_call)
next
  case (Resume k)
  show ?thesis
  proof (cases "k < length (tasks s)")
    case True
    then show ?thesis using Resume dormant_takeTask [OF d True]
      by (simp add: step_Resume dormant_run_task)
  next
    case False
    then show ?thesis using Resume d by (simp add: step_def)
  qed
next
  case (SetIO p)
  then show ?thesis using d dormant_cong [of "s\<lparr>io := p\<rparr>" s]
    by (simp add: step_def queued_def)
next
  case Tick
  then show ?thesis using d dormant_cong [of "s\<lparr>now := now s + 1\<rparr>" s]
    by (simp add: step_def queued_def)
qed

lemma dormant_run: "dormant r s \<Longrightarrow> dormant r (run lim env s evs)"
  unfolding run_def by (induction evs arbitrary: s) (simp_all add: dormant_step)

text \<open>Cancelling a job that waits in a tier.\<close>

lemma findIndex_None: "findIndex P xs = None \<Longrightarrow> x \<in> set xs \<Longrightarrow> \<not> P x"
  by (induction xs) (auto split: if_splits)

lemma findIndex_Some: "findIndex P xs = Some i \<Longrightarrow> i < length xs \<and> P (xs ! i)"
proof (induction xs arbitrary: i)
  case Nil
  then show ?case by simp
next
  case (Cons x xs)
  then show ?case by (cases "P x") auto
qed

lemma removed_at_distinct:
  assumes "distinct (a @ xs @ b)" and "i < length xs"
  shows "xs ! i \<notin> set (a @ splice1 i xs @ b)"
proof -
  have "xs = take i xs @ xs ! i # drop (Suc i) xs" using assms(2) by (rule id_take_nth_drop)
  then have "distinct (a @ (take i xs @ xs ! i # drop (Suc i) xs) @ b)" using assms(1) by simp
  then show ?thesis by (auto simp: splice1_def)
qed

lemma cancel_queued_dormant:
  assumes c: "consistent s" and u: "uniqueIds s" and q: "r \<in> set (queued s)"
  shows "dormant r (cancelJob_call (jobId (heap s ! r)) resp s)"
proof -
  let ?jid = "jobId (heap s ! r)"
  let ?P = "\<lambda>r'. jobId (heap s ! r') = ?jid"
  let ?q = "concat (map queueContRefs (tasks s))"
  have pend: "distinct (pendingRefs s)"
    "\<forall>x \<in> set (pendingRefs s). x < length (heap s) \<and> x \<notin> set (dispatched s)"
    using c by (simp_all add: consistent_def pendingOk_def)
  have rp: "r \<in> set (pendingRefs s)" using q by (simp add: pendingRefs_def)
  then have r: "r < length (heap s)" "r \<notin> set (dispatched s)" using pend by auto
  have only: "x = r" if "x \<in> set (pendingRefs s)" and "?P x" for x
    using that pend uniqueIds_inj [OF u _ r(1), of x] by auto
  have st: "status (heap s ! r) \<noteq> Processing"
  proof
    assume "status (heap s ! r) = Processing"
    then have "(?jid, r) \<in> set (activeJobs s)"
      using c r by (simp add: consistent_def processingOk_def)
    then show False using c r by (auto simp: consistent_def activeOk_def)
  qed
  have na: "map_of (activeJobs s) ?jid = None"
  proof (rule ccontr)
    assume "map_of (activeJobs s) ?jid \<noteq> None"
    then obtain r' where "map_of (activeJobs s) ?jid = Some r'" by blast
    then have "(?jid, r') \<in> set (activeJobs s)" by (rule map_of_SomeD)
    then have r': "r' \<in> set (dispatched s)" "jobId (heap s ! r') = ?jid"
      using c by (auto simp: consistent_def activeOk_def)
    then have "r' < length (heap s)" using c by (simp add: consistent_def dispatchedOk_def)
    then have "r' = r" using uniqueIds_inj [OF u _ r(1), of r'] r' by simp
    then show False using r' r by simp
  qed
  have d: "distinct (high s @ normal s @ low s @ ?q)"
    using pend by (simp add: pendingRefs_def queued_def)
  show ?thesis
  proof (cases "findIndex ?P (high s)")
    case (Some i)
    then have i: "i < length (high s)" "?P (high s ! i)" using findIndex_Some by fastforce+
    then have "high s ! i = r" using only [of "high s ! i"] by (simp add: pendingRefs_def queued_def)
    then have "r \<notin> set ([] @ splice1 i (high s) @ (normal s @ low s @ ?q))"
      using removed_at_distinct [of "[]" "high s" "normal s @ low s @ ?q" i] d i by simp
    then show ?thesis using na Some r st
      by (simp add: cancelJob_call_def cancelFound_def Let_def dormant_def pendingRefs_def queued_def)
  next
    case None
    then have nh: "r \<notin> set (high s)" using findIndex_None [of ?P "high s" r] by auto
    show ?thesis
    proof (cases "findIndex ?P (normal s)")
      case (Some i)
      then have i: "i < length (normal s)" "?P (normal s ! i)" using findIndex_Some by fastforce+
      then have "normal s ! i = r"
        using only [of "normal s ! i"] by (simp add: pendingRefs_def queued_def)
      then have "r \<notin> set (high s @ splice1 i (normal s) @ (low s @ ?q))"
        using removed_at_distinct [of "high s" "normal s" "low s @ ?q" i] d i by simp
      then show ?thesis using na None Some r st
        by (simp add: cancelJob_call_def cancelFound_def Let_def dormant_def pendingRefs_def
              queued_def)
    next
      case None2: None
      then have nn: "r \<notin> set (normal s)" using findIndex_None [of ?P "normal s" r] by auto
      show ?thesis
      proof (cases "findIndex ?P (low s)")
        case (Some i)
        then have i: "i < length (low s)" "?P (low s ! i)" using findIndex_Some by fastforce+
        then have "low s ! i = r"
          using only [of "low s ! i"] by (simp add: pendingRefs_def queued_def)
        then have "r \<notin> set ((high s @ normal s) @ splice1 i (low s) @ ?q)"
          using removed_at_distinct [of "high s @ normal s" "low s" ?q i] d i by simp
        then show ?thesis using na None None2 Some r st
          by (simp add: cancelJob_call_def cancelFound_def Let_def dormant_def pendingRefs_def
                queued_def)
      next
        case None3: None
        then have "r \<notin> set (low s)" using findIndex_None [of ?P "low s" r] by auto
        then show ?thesis using nh nn q by (simp add: queued_def)
      qed
    qed
  qed
qed

lemma processNextJob_empty: "queued s = [] \<Longrightarrow> processNextJob lim s = s"
  by (simp add: processNextJob.simps shiftNext_def queued_def)

lemma processNextJob_tasks_mono: "set (tasks s) \<subseteq> set (tasks (processNextJob lim s))"
proof (rule processNextJob_preserves [where P = "\<lambda>s'. set (tasks s) \<subseteq> set (tasks s')"])
  fix r s0 s1
  assume "shiftNext s0 = Some (r, s1)" and "set (tasks s) \<subseteq> set (tasks s0)"
  then show "set (tasks s) \<subseteq> set (tasks (processJob_start r s1))"
    using shiftNext_frame(6) [of s0 r s1] by auto
qed simp

text \<open>What the three jobs of \<open>threeJobs\<close> do after N1, still queued, has been cancelled.\<close>

definition afterThree :: "event list" where
  "afterThree =
     [Resume 1,
      Resume 0, Resume 0, Resume 0, Resume 0, Resume 0, Resume 0,
      Resume 0, Resume 0, Resume 0, Resume 0, Resume 0, Resume 0,
      CallQueueJob (exampleJob ''L1'' Low) (Returns ()), Resume 0,
      Resume 0, Resume 0, Resume 0, Resume 0, Resume 0, Resume 0]"

lemma processNextJob_inactive:
  assumes "\<forall>q \<in> set (queued s). jobId (heap s ! q) \<noteq> jid"
    and "map_of (activeJobs s) jid = None"
  shows "map_of (activeJobs (processNextJob lim s)) jid = None"
proof -
  have "(\<lambda>s'. (\<forall>q \<in> set (queued s'). jobId (heap s' ! q) \<noteq> jid) \<and>
              map_of (activeJobs s') jid = None) (processNextJob lim s)"
  proof (rule processNextJob_preserves)
    fix r s0 s1
    assume sh: "shiftNext s0 = Some (r, s1)"
      and P: "(\<forall>q \<in> set (queued s0). jobId (heap s0 ! q) \<noteq> jid) \<and>
              map_of (activeJobs s0) jid = None"
    note fr = shiftNext_frame [OF sh]
    have q: "queued s0 = r # queued s1" using sh by (rule shiftNext_queued)
    then have r: "jobId (heap s1 ! r) \<noteq> jid" using P fr(3) by simp
    have a: "map_of (activeJobs (processJob_start r s1)) jid = None"
      using P r fr(4) by (simp add: processJob_start_activeJobs map_set_def update_conv')
    have "\<forall>q \<in> set (queued (processJob_start r s1)).
            jobId (heap (processJob_start r s1) ! q) \<noteq> jid"
      using P q fr(3) by simp
    then show "(\<forall>q \<in> set (queued (processJob_start r s1)).
                  jobId (heap (processJob_start r s1) ! q) \<noteq> jid) \<and>
               map_of (activeJobs (processJob_start r s1)) jid = None"
      using a by simp
  qed (use assms in simp)
  then show ?thesis by simp
qed

lemma filter_absent: "r \<notin> set xs \<Longrightarrow> filter (\<lambda>x. x \<noteq> r) xs = xs"
  by (induction xs) auto

lemma splice1_filter:
  assumes "distinct xs" and "i < length xs"
  shows "splice1 i xs = filter (\<lambda>x. x \<noteq> xs ! i) xs"
proof -
  let ?a = "take i xs" and ?b = "drop (Suc i) xs"
  have xs: "xs = ?a @ xs ! i # ?b" using assms(2) by (rule id_take_nth_drop)
  then have "distinct (?a @ xs ! i # ?b)" using assms(1) by simp
  then have "xs ! i \<notin> set ?a" "xs ! i \<notin> set ?b" by auto
  then have "filter (\<lambda>x. x \<noteq> xs ! i) ?a = ?a" "filter (\<lambda>x. x \<noteq> xs ! i) ?b = ?b"
    by (simp_all add: filter_absent)
  then have "filter (\<lambda>x. x \<noteq> xs ! i) (?a @ xs ! i # ?b) = ?a @ ?b" by simp
  then show ?thesis using xs by (simp add: splice1_def)
qed

text \<open>
  What \<^verbatim>\<open>cancelJob\<close> does, up to its \<^verbatim>\<open>await\<close>, to a job that waits in a tier.
\<close>

definition unqueued :: "ref \<Rightarrow> bool result \<Rightarrow> sched \<Rightarrow> sched \<Rightarrow> bool" where
  "unqueued r resp s s' =
     (high s' = filter (\<lambda>x. x \<noteq> r) (high s) \<and>
      normal s' = filter (\<lambda>x. x \<noteq> r) (normal s) \<and>
      low s' = filter (\<lambda>x. x \<noteq> r) (low s) \<and>
      heap s' = heap s \<and> activeJobs s' = activeJobs s \<and> dispatched s' = dispatched s \<and>
      emitted s' = emitted s \<and>
      calls s' = calls s @ [UpdateJobStatus (jobId (heap s ! r)) Cancelled None (Some (now s))] \<and>
      tasks s' = tasks s @ [CancelQueuedCont resp])"

lemma cancel_queued_effect:
  assumes c: "consistent s" and u: "uniqueIds s" and q: "r \<in> set (queued s)"
  shows "unqueued r resp s (cancelJob_call (jobId (heap s ! r)) resp s)"
proof -
  let ?jid = "jobId (heap s ! r)"
  let ?P = "\<lambda>r'. jobId (heap s ! r') = ?jid"
  have pend: "distinct (pendingRefs s)"
    "\<forall>x \<in> set (pendingRefs s). x < length (heap s) \<and> x \<notin> set (dispatched s)"
    using c by (simp_all add: consistent_def pendingOk_def)
  have rp: "r \<in> set (pendingRefs s)" using q by (simp add: pendingRefs_def)
  then have r: "r < length (heap s)" "r \<notin> set (dispatched s)" using pend by auto
  have only: "x = r" if "x \<in> set (pendingRefs s)" and "?P x" for x
    using that pend uniqueIds_inj [OF u _ r(1), of x] by auto
  have na: "map_of (activeJobs s) ?jid = None"
  proof (rule ccontr)
    assume "map_of (activeJobs s) ?jid \<noteq> None"
    then obtain r' where "map_of (activeJobs s) ?jid = Some r'" by blast
    then have "(?jid, r') \<in> set (activeJobs s)" by (rule map_of_SomeD)
    then have r': "r' \<in> set (dispatched s)" "jobId (heap s ! r') = ?jid"
      using c by (auto simp: consistent_def activeOk_def)
    then have "r' < length (heap s)" using c by (simp add: consistent_def dispatchedOk_def)
    then have "r' = r" using uniqueIds_inj [OF u _ r(1), of r'] r' by simp
    then show False using r' r by simp
  qed
  have d: "distinct (high s)" "distinct (normal s)" "distinct (low s)"
    "set (high s) \<inter> set (normal s) = {}" "set (high s) \<inter> set (low s) = {}"
    "set (normal s) \<inter> set (low s) = {}"
    using pend by (auto simp: pendingRefs_def queued_def)
  show ?thesis
  proof (cases "findIndex ?P (high s)")
    case (Some i)
    then have i: "i < length (high s)" "?P (high s ! i)" using findIndex_Some by fastforce+
    then have hr: "high s ! i = r" using only [of "high s ! i"] by (simp add: pendingRefs_def queued_def)
    then have "r \<in> set (high s)" using i(1) nth_mem by fastforce
    then have "r \<notin> set (normal s)" "r \<notin> set (low s)" using d by auto
    then have "filter (\<lambda>x. x \<noteq> r) (normal s) = normal s" "filter (\<lambda>x. x \<noteq> r) (low s) = low s"
      by (simp_all add: filter_absent)
    moreover have "splice1 i (high s) = filter (\<lambda>x. x \<noteq> r) (high s)"
      using splice1_filter [OF d(1) i(1)] hr by simp
    ultimately show ?thesis using na Some hr
      by (simp add: cancelJob_call_def cancelFound_def Let_def unqueued_def)
  next
    case None
    then have nh: "r \<notin> set (high s)" using findIndex_None [of ?P "high s" r] by auto
    show ?thesis
    proof (cases "findIndex ?P (normal s)")
      case (Some i)
      then have i: "i < length (normal s)" "?P (normal s ! i)" using findIndex_Some by fastforce+
      then have hr: "normal s ! i = r"
        using only [of "normal s ! i"] by (simp add: pendingRefs_def queued_def)
      then have "r \<in> set (normal s)" using i(1) nth_mem by fastforce
      then have "r \<notin> set (low s)" using d by auto
      then have "filter (\<lambda>x. x \<noteq> r) (high s) = high s" "filter (\<lambda>x. x \<noteq> r) (low s) = low s"
        using nh by (simp_all add: filter_absent)
      moreover have "splice1 i (normal s) = filter (\<lambda>x. x \<noteq> r) (normal s)"
        using splice1_filter [OF d(2) i(1)] hr by simp
      ultimately show ?thesis using na None Some hr
        by (simp add: cancelJob_call_def cancelFound_def Let_def unqueued_def)
    next
      case None2: None
      then have nn: "r \<notin> set (normal s)" using findIndex_None [of ?P "normal s" r] by auto
      show ?thesis
      proof (cases "findIndex ?P (low s)")
        case (Some i)
        then have i: "i < length (low s)" "?P (low s ! i)" using findIndex_Some by fastforce+
        then have hr: "low s ! i = r"
          using only [of "low s ! i"] by (simp add: pendingRefs_def queued_def)
        have "filter (\<lambda>x. x \<noteq> r) (high s) = high s" "filter (\<lambda>x. x \<noteq> r) (normal s) = normal s"
          using nh nn by (simp_all add: filter_absent)
        moreover have "splice1 i (low s) = filter (\<lambda>x. x \<noteq> r) (low s)"
          using splice1_filter [OF d(3) i(1)] hr by simp
        ultimately show ?thesis using na None None2 Some hr
          by (simp add: cancelJob_call_def cancelFound_def Let_def unqueued_def)
      next
        case None3: None
        then have "r \<notin> set (low s)" using findIndex_None [of ?P "low s" r] by auto
        then show ?thesis using nh nn q by (simp add: queued_def)
      qed
    qed
  qed
qed

lemma dispatchedPrefix_queued: "dispatchedPrefix k s s' \<Longrightarrow> queued s' = drop k (queued s)"
  by (simp add: dispatchedPrefix_def queued_def)

text \<open>
  Claim C6, amended. For a job that is in \<^verbatim>\<open>activeJobs\<close>, \<^verbatim>\<open>cancelJob\<close> marks the job
  cancelled with progress 0, asks the store to record the status cancelled, publishes
  nothing and leaves the job in \<^verbatim>\<open>activeJobs\<close> until the store has answered. When the
  store has answered, \<^verbatim>\<open>cancelJob\<close> puts the job into \<^verbatim>\<open>completedJobs\<close>, deletes its id
  from \<^verbatim>\<open>activeJobs\<close> (the id is active afterwards only if a job waiting in a tier has
  the same id and is started in its place) and calls \<^verbatim>\<open>processNextJob\<close>: the jobs
  started are a prefix of the queue, at least one when a slot is free and a job waits,
  and as many as fit under the limit; it publishes nothing and reports success. When
  the store call throws, \<^verbatim>\<open>cancelJob\<close> reports the failure and leaves \<^verbatim>\<open>activeJobs\<close>
  as it is. In both parts it leaves every suspended invocation in place, the job's
  \<^verbatim>\<open>processJob\<close> among them, and which \<^verbatim>\<open>await\<close> \<^verbatim>\<open>processJob\<close> reaches next never
  depends on the state: the pipeline of a cancelled job runs on, it calls the next
  extractor and publishes the event of progress 80 whatever the status of the job is.
  For a job that still waits in a tier,
  in a state that the system has reached from the initial one with pairwise different
  job ids and every job submitted with the status queued, \<^verbatim>\<open>cancelJob\<close> takes this job
  and no other out of its tier, asks the store to record the status cancelled, and
  changes nothing else; in no later state is the job in a tier or processing.
\<close>

theorem cancellation_effects:
  "(map_of (activeJobs s) jid = Some r \<and> r < length (heap s) \<longrightarrow>
      status (heap (cancelJob_call jid resp s) ! r) = Cancelled \<and>
      progress (heap (cancelJob_call jid resp s) ! r) = 0 \<and>
      message (heap (cancelJob_call jid resp s) ! r) = ''Job cancelled by user'' \<and>
      calls (cancelJob_call jid resp s) =
        calls s @ [UpdateJobStatus (jobId (heap s ! r)) Cancelled (startedAt (heap s ! r))
                     (Some (now s))] \<and>
      tasks (cancelJob_call jid resp s) = tasks s @ [CancelActiveCont jid r resp] \<and>
      activeJobs (cancelJob_call jid resp s) = activeJobs s \<and>
      emitted (cancelJob_call jid resp s) = emitted s) \<and>
   map_of (completedJobs (cancelJob_cont lim jid r (Returns b) s)) jid = Some r \<and>
   emitted (cancelJob_cont lim jid r (Returns b) s) = emitted s \<and>
   set (tasks s) \<subseteq> set (tasks (cancelJob_cont lim jid r (Returns b) s)) \<and>
   replies (cancelJob_cont lim jid r (Returns b) s) =
     replies s @ [CancelJobReturned True ''Job cancelled successfully''] \<and>
   ((\<forall>q \<in> set (queued s). jobId (heap s ! q) \<noteq> jid) \<longrightarrow>
      map_of (activeJobs (cancelJob_cont lim jid r (Returns b) s)) jid = None) \<and>
   (queued s = [] \<longrightarrow>
      activeJobs (cancelJob_cont lim jid r (Returns b) s) = map_delete jid (activeJobs s)) \<and>
   dispatched (cancelJob_cont lim jid r (Returns b) s) =
     dispatched s @
     take (length (dispatched (cancelJob_cont lim jid r (Returns b) s)) - length (dispatched s))
       (queued s) \<and>
   queued (cancelJob_cont lim jid r (Returns b) s) =
     drop (length (dispatched (cancelJob_cont lim jid r (Returns b) s)) - length (dispatched s))
       (queued s) \<and>
   (lim \<le> map_size (activeJobs (cancelJob_cont lim jid r (Returns b) s)) \<or>
    queued (cancelJob_cont lim jid r (Returns b) s) = []) \<and>
   (map_size (map_delete jid (activeJobs s)) < lim \<and> queued s \<noteq> [] \<longrightarrow>
      length (dispatched s) < length (dispatched (cancelJob_cont lim jid r (Returns b) s))) \<and>
   activeJobs (cancelJob_cont lim jid r (Throws m) s) = activeJobs s \<and>
   tasks (cancelJob_cont lim jid r (Throws m) s) = tasks s \<and>
   replies (cancelJob_cont lim jid r (Throws m) s) =
     replies s @ [CancelJobReturned False (''Error cancelling job: '' @ m)] \<and>
   fst (resume_pc lim e r pc s) = fst (resume_pc lim e r pc s') \<and>
   calls (snd (resume_pc lim e r AwaitImages s')) =
     calls s' @ [Extract SocialMedia (pagesWithContent e) None] \<and>
   (io s' = IOWorks \<and> r < length (heap s') \<longrightarrow>
      emitted (snd (resume_pc lim e r AwaitIsbn s')) =
        emitted s' @ [jobEvent ((heap s' ! r)\<lparr>progress := 80\<rparr>) ''Building final results'']) \<and>
   (\<forall>q. q = run lim env (initial p) evs0 \<and> distinct (map jobId (heap q)) \<and>
        (\<forall>ev \<in> set evs0. submitsQueued ev) \<and> r \<in> set (queued q) \<longrightarrow>
        unqueued r resp q (cancelJob_call (jobId (heap q ! r)) resp q) \<and>
        r \<notin> set (queued (cancelJob_call (jobId (heap q ! r)) resp q)) \<and>
        (\<forall>evs. r \<notin> set (queued (run lim env (cancelJob_call (jobId (heap q ! r)) resp q) evs)) \<and>
               status (heap (run lim env (cancelJob_call (jobId (heap q ! r)) resp q) evs) ! r)
                 \<noteq> Processing))"
proof -
  let ?c = "cancelJob_cont lim jid r (Returns b) s"
  have A: "map_of (activeJobs s) jid = Some r \<and> r < length (heap s) \<longrightarrow>
      status (heap (cancelJob_call jid resp s) ! r) = Cancelled \<and>
      progress (heap (cancelJob_call jid resp s) ! r) = 0 \<and>
      message (heap (cancelJob_call jid resp s) ! r) = ''Job cancelled by user'' \<and>
      calls (cancelJob_call jid resp s) =
        calls s @ [UpdateJobStatus (jobId (heap s ! r)) Cancelled (startedAt (heap s ! r))
                     (Some (now s))] \<and>
      tasks (cancelJob_call jid resp s) = tasks s @ [CancelActiveCont jid r resp] \<and>
      activeJobs (cancelJob_call jid resp s) = activeJobs s \<and>
      emitted (cancelJob_call jid resp s) = emitted s"
    by (simp add: cancelJob_call_def Let_def)
  let ?s2 = "s\<lparr>activeJobs := map_delete jid (activeJobs s),
               completedJobs := map_set jid r (completedJobs s)\<rparr>"
  have cont: "?c = reply (CancelJobReturned True ''Job cancelled successfully'')
                     (processNextJob lim ?s2)"
    by (simp add: cancelJob_cont_def Let_def)
  have s2: "queued ?s2 = queued s" "dispatched ?s2 = dispatched s" "heap ?s2 = heap s"
    by (simp_all add: queued_def)
  have B1: "map_of (completedJobs ?c) jid = Some r"
    by (simp add: cont map_set_def update_conv')
  have B2: "emitted ?c = emitted s"
    by (simp add: cont)
  have B3: "set (tasks s) \<subseteq> set (tasks ?c)"
    using processNextJob_tasks_mono [of ?s2 lim] by (simp add: cont)
  have B3': "replies ?c = replies s @ [CancelJobReturned True ''Job cancelled successfully'']"
    by (simp add: cont)
  have B4: "queued s = [] \<longrightarrow> activeJobs ?c = map_delete jid (activeJobs s)"
  proof
    assume "queued s = []"
    then have "queued ?s2 = []" by (simp add: queued_def)
    then show "activeJobs ?c = map_delete jid (activeJobs s)"
      by (simp add: cont processNextJob_empty)
  qed
  have B5: "(\<forall>q \<in> set (queued s). jobId (heap s ! q) \<noteq> jid) \<longrightarrow>
      map_of (activeJobs ?c) jid = None"
  proof
    assume "\<forall>q \<in> set (queued s). jobId (heap s ! q) \<noteq> jid"
    then have "\<forall>q \<in> set (queued ?s2). jobId (heap ?s2 ! q) \<noteq> jid" by (simp add: s2)
    moreover have "map_of (activeJobs ?s2) jid = None"
      by (simp add: map_delete_def delete_conv')
    ultimately have "map_of (activeJobs (processNextJob lim ?s2)) jid = None"
      by (rule processNextJob_inactive)
    then show "map_of (activeJobs ?c) jid = None" by (simp add: cont)
  qed
  have k: "dispatchCount lim ?s2 = length (dispatched ?c) - length (dispatched s)"
    by (simp add: dispatchCount_def cont)
  have pre: "dispatchedPrefix (dispatchCount lim ?s2) ?s2 (processNextJob lim ?s2)"
    by (rule processNextJob_count)
  have B6: "dispatched ?c =
      dispatched s @ take (length (dispatched ?c) - length (dispatched s)) (queued s)"
  proof -
    have "dispatched (processNextJob lim ?s2) =
        dispatched s @ take (dispatchCount lim ?s2) (queued s)"
      using pre by (simp add: dispatchedPrefix_def queued_def)
    then show ?thesis unfolding k by (simp add: cont)
  qed
  have B7: "queued ?c = drop (length (dispatched ?c) - length (dispatched s)) (queued s)"
  proof -
    have "queued (processNextJob lim ?s2) = drop (dispatchCount lim ?s2) (queued s)"
      using dispatchedPrefix_queued [OF pre] by (simp add: s2)
    then show ?thesis unfolding k by (simp add: cont queued_def)
  qed
  have B8: "lim \<le> map_size (activeJobs ?c) \<or> queued ?c = []"
    using processNextJob_stops [of lim ?s2] by (simp add: cont queued_def)
  have B9: "map_size (map_delete jid (activeJobs s)) < lim \<and> queued s \<noteq> [] \<longrightarrow>
      length (dispatched s) < length (dispatched ?c)"
  proof
    assume "map_size (map_delete jid (activeJobs s)) < lim \<and> queued s \<noteq> []"
    then have "map_size (activeJobs ?s2) < lim" "queued ?s2 \<noteq> []" by (simp_all add: s2)
    then have "0 < dispatchCount lim ?s2" by (rule processNextJob_progress)
    then show "length (dispatched s) < length (dispatched ?c)" unfolding k by simp
  qed
  have T: "activeJobs (cancelJob_cont lim jid r (Throws m) s) = activeJobs s"
    "tasks (cancelJob_cont lim jid r (Throws m) s) = tasks s"
    "replies (cancelJob_cont lim jid r (Throws m) s) =
       replies s @ [CancelJobReturned False (''Error cancelling job: '' @ m)]"
    by (simp_all add: cancelJob_cont_def cancelJob_catch_def)
  have C: "\<forall>q. q = run lim env (initial p) evs0 \<and> distinct (map jobId (heap q)) \<and>
        (\<forall>ev \<in> set evs0. submitsQueued ev) \<and> r \<in> set (queued q) \<longrightarrow>
        unqueued r resp q (cancelJob_call (jobId (heap q ! r)) resp q) \<and>
        r \<notin> set (queued (cancelJob_call (jobId (heap q ! r)) resp q)) \<and>
        (\<forall>evs. r \<notin> set (queued (run lim env (cancelJob_call (jobId (heap q ! r)) resp q) evs)) \<and>
               status (heap (run lim env (cancelJob_call (jobId (heap q ! r)) resp q) evs) ! r)
                 \<noteq> Processing)"
  proof (intro allI impI, elim conjE)
    fix q
    assume q: "q = run lim env (initial p) evs0" and u: "distinct (map jobId (heap q))"
      and sq: "\<forall>ev \<in> set evs0. submitsQueued ev" and r: "r \<in> set (queued q)"
    have uq: "uniqueIds q" using u by (simp add: uniqueIds_def ids_def)
    then have cq: "consistent q" using consistent_initial sq unfolding q by (intro consistent_run)
    then have d: "dormant r (cancelJob_call (jobId (heap q ! r)) resp q)"
      using uq r by (rule cancel_queued_dormant)
    then have "dormant r (run lim env (cancelJob_call (jobId (heap q ! r)) resp q) evs)" for evs
      by (rule dormant_run)
    then have later: "\<forall>evs. r \<notin> set (queued (run lim env (cancelJob_call (jobId (heap q ! r)) resp q) evs)) \<and>
               status (heap (run lim env (cancelJob_call (jobId (heap q ! r)) resp q) evs) ! r)
                 \<noteq> Processing"
      by (auto simp: dormant_def pendingRefs_def)
    have "unqueued r resp q (cancelJob_call (jobId (heap q ! r)) resp q)"
      using cq uq r by (rule cancel_queued_effect)
    moreover have "r \<notin> set (queued (cancelJob_call (jobId (heap q ! r)) resp q))"
      using d by (auto simp: dormant_def pendingRefs_def)
    ultimately show "unqueued r resp q (cancelJob_call (jobId (heap q ! r)) resp q) \<and>
        r \<notin> set (queued (cancelJob_call (jobId (heap q ! r)) resp q)) \<and>
        (\<forall>evs. r \<notin> set (queued (run lim env (cancelJob_call (jobId (heap q ! r)) resp q) evs)) \<and>
               status (heap (run lim env (cancelJob_call (jobId (heap q ! r)) resp q) evs) ! r)
                 \<noteq> Processing)"
      using later by blast
  qed
  have ctl: "fst (resume_pc lim e r pc s) = fst (resume_pc lim e r pc s')"
    by (rule resume_pc_control)
  have on1: "calls (snd (resume_pc lim e r AwaitImages s')) =
      calls s' @ [Extract SocialMedia (pagesWithContent e) None]"
    by (simp split: result.splits)
  have on2: "io s' = IOWorks \<and> r < length (heap s') \<longrightarrow>
      emitted (snd (resume_pc lim e r AwaitIsbn s')) =
        emitted s' @ [jobEvent ((heap s' ! r)\<lparr>progress := 80\<rparr>) ''Building final results'']"
    by (simp add: Let_def setProgress_def notify_emitted jobEvent_def split: option.splits)
  from A B1 B2 B3 B3' B5 B4 B6 B7 B8 B9 T ctl on1 on2 C show ?thesis
    by (intro conjI) assumption+
qed

text \<open>
  With one slot, H1 processing and H2, N1 waiting: H1 is cancelled and H2 is started in
  its place; N1 is cancelled while it waits and is never started.
\<close>

definition cancelledH1 :: sched where
  "cancelledH1 =
     takeTask 1 (cancelJob_call ''H1'' (Returns True)
                   (run 1 (\<lambda>_. noPages) (initial IOWorks) threeSubmitted))"

theorem cancellation_effects_witness:
  "status (heap (cancelJob_call ''J1'' (Returns True) midExtraction) ! 0) = Cancelled \<and>
   tasks (cancelJob_call ''J1'' (Returns True) midExtraction) =
     [Worker 0 AwaitImages, CancelActiveCont ''J1'' 0 (Returns True)] \<and>
   calls (cancelJob_call ''J1'' (Returns True) midExtraction) =
     calls midExtraction @ [UpdateJobStatus ''J1'' Cancelled (Some 0) (Some 0)] \<and>
   emitted (snd (resume_pc 5 twoPages 0 AwaitIsbn
                   (cancelJob_call ''J1'' (Returns True) midExtraction))) =
     emitted midExtraction @
     [(''job-J1'', ''job-update'',
       \<lparr>pJobId = ''J1'', pStatus = Cancelled, pProgress = 80,
        pMessage = ''Building final results''\<rparr>)] \<and>
   activeJobs cancelledH1 = [(''H1'', 0)] \<and>
   queued cancelledH1 = [2, 1] \<and>
   map_of (activeJobs (cancelJob_cont 1 ''H1'' 0 (Returns True) cancelledH1)) ''H1'' = None \<and>
   map_of (completedJobs (cancelJob_cont 1 ''H1'' 0 (Returns True) cancelledH1)) ''H1'' = Some 0 \<and>
   length (dispatched cancelledH1) <
     length (dispatched (cancelJob_cont 1 ''H1'' 0 (Returns True) cancelledH1)) \<and>
   queued (run 1 (\<lambda>_. noPages) (initial IOWorks) threeSubmitted) = [2, 1] \<and>
   high (cancelJob_call ''N1'' (Returns True)
           (run 1 (\<lambda>_. noPages) (initial IOWorks) threeSubmitted)) = [2] \<and>
   normal (cancelJob_call ''N1'' (Returns True)
           (run 1 (\<lambda>_. noPages) (initial IOWorks) threeSubmitted)) = [] \<and>
   1 \<notin> set (queued (cancelJob_call ''N1'' (Returns True)
                     (run 1 (\<lambda>_. noPages) (initial IOWorks) threeSubmitted))) \<and>
   status (heap (run 1 (\<lambda>_. noPages)
                  (cancelJob_call ''N1'' (Returns True)
                     (run 1 (\<lambda>_. noPages) (initial IOWorks) threeSubmitted))
                  afterThree) ! 1) \<noteq> Processing \<and>
   dispatchedIds (run 1 (\<lambda>_. noPages)
                  (cancelJob_call ''N1'' (Returns True)
                     (run 1 (\<lambda>_. noPages) (initial IOWorks) threeSubmitted))
                  afterThree) = [''H1'', ''H2'', ''L1'']"
proof -
  let ?q = "run 1 (\<lambda>_. noPages) (initial IOWorks) threeSubmitted"
  have a: "map_of (activeJobs midExtraction) ''J1'' = Some 0" "0 < length (heap midExtraction)"
    "tasks midExtraction = [Worker 0 AwaitImages]" "jobId (heap midExtraction ! 0) = ''J1''"
    "startedAt (heap midExtraction ! 0) = Some 0" "now midExtraction = 0"
    by code_simp+
  have b: "distinct (map jobId (heap ?q))" "queued ?q = [2, 1]" "jobId (heap ?q ! 1) = ''N1''"
    "high ?q = [2]" "normal ?q = [1]"
    by code_simp+
  have c: "\<forall>ev \<in> set threeSubmitted. submitsQueued ev"
    by (simp add: threeSubmitted_def exampleJob_def)
  have d: "dispatchedIds (run 1 (\<lambda>_. noPages) (cancelJob_call ''N1'' (Returns True) ?q)
             afterThree) = [''H1'', ''H2'', ''L1'']"
    by code_simp
  have h: "activeJobs cancelledH1 = [(''H1'', 0)]" "queued cancelledH1 = [2, 1]"
    "jobId (heap cancelledH1 ! 2) = ''H2''" "jobId (heap cancelledH1 ! 1) = ''N1''"
    by code_simp+
  have h2: "map_size (map_delete ''H1'' (activeJobs cancelledH1)) < 1"
    unfolding h by code_simp
  have a': "io (cancelJob_call ''J1'' (Returns True) midExtraction) = IOWorks"
    "0 < length (heap (cancelJob_call ''J1'' (Returns True) midExtraction))"
    "jobId (heap (cancelJob_call ''J1'' (Returns True) midExtraction) ! 0) = ''J1''"
    "status (heap (cancelJob_call ''J1'' (Returns True) midExtraction) ! 0) = Cancelled"
    "emitted (cancelJob_call ''J1'' (Returns True) midExtraction) = emitted midExtraction"
    by code_simp+
  from cancellation_effects [of midExtraction "''J1''" 0 "Returns True" 1 True "''m''" "noPages"
      AwaitImages midExtraction "\<lambda>_. noPages" IOWorks threeSubmitted]
  have 1: "status (heap (cancelJob_call ''J1'' (Returns True) midExtraction) ! 0) = Cancelled \<and>
      tasks (cancelJob_call ''J1'' (Returns True) midExtraction) =
        [Worker 0 AwaitImages, CancelActiveCont ''J1'' 0 (Returns True)] \<and>
      calls (cancelJob_call ''J1'' (Returns True) midExtraction) =
        calls midExtraction @ [UpdateJobStatus ''J1'' Cancelled (Some 0) (Some 0)]"
    using a by (simp del: resume_pc.simps)
  from cancellation_effects [of midExtraction "''J1''" 0 "Returns True" 5 True "''m''" twoPages
      AwaitImages "cancelJob_call ''J1'' (Returns True) midExtraction" "\<lambda>_. noPages" IOWorks
      threeSubmitted]
  have 5: "emitted (snd (resume_pc 5 twoPages 0 AwaitIsbn
                   (cancelJob_call ''J1'' (Returns True) midExtraction))) =
     emitted midExtraction @
     [(''job-J1'', ''job-update'',
       \<lparr>pJobId = ''J1'', pStatus = Cancelled, pProgress = 80,
        pMessage = ''Building final results''\<rparr>)]"
    using a' by (simp del: resume_pc.simps add: jobEvent_def)
  from cancellation_effects [of cancelledH1 "''H1''" 0 "Returns True" 1 True "''m''" "noPages"
      AwaitImages cancelledH1 "\<lambda>_. noPages" IOWorks threeSubmitted]
  have 3: "map_of (activeJobs (cancelJob_cont 1 ''H1'' 0 (Returns True) cancelledH1)) ''H1'' = None \<and>
      map_of (completedJobs (cancelJob_cont 1 ''H1'' 0 (Returns True) cancelledH1)) ''H1'' = Some 0 \<and>
      length (dispatched cancelledH1) <
        length (dispatched (cancelJob_cont 1 ''H1'' 0 (Returns True) cancelledH1))"
    using h h2 by (simp del: resume_pc.simps)
  from cancellation_effects [of ?q "''N1''" 1 "Returns True" 1 True "''m''" "noPages"
      AwaitImages ?q "\<lambda>_. noPages" IOWorks threeSubmitted]
  have 2: "unqueued 1 (Returns True) ?q (cancelJob_call ''N1'' (Returns True) ?q) \<and>
      1 \<notin> set (queued (cancelJob_call ''N1'' (Returns True) ?q)) \<and>
      (\<forall>evs. status (heap (run 1 (\<lambda>_. noPages) (cancelJob_call ''N1'' (Returns True) ?q) evs) ! 1)
         \<noteq> Processing)"
    using b c by (simp del: resume_pc.simps)
  then have 4: "high (cancelJob_call ''N1'' (Returns True) ?q) = [2]"
    "normal (cancelJob_call ''N1'' (Returns True) ?q) = []"
    using b by (simp_all add: unqueued_def)
  from 1 2 3 4 5 b d h show ?thesis by blast
qed

section \<open>The progress of a cancelled job\<close>

text \<open>The jobs that have a suspended invocation of \<^verbatim>\<open>processJob\<close>.\<close>

fun workerRefs :: "task \<Rightarrow> ref list" where
  "workerRefs (Worker r _) = [r]"
| "workerRefs _ = []"

definition workers :: "sched \<Rightarrow> ref list" where
  "workers s = concat (map workerRefs (tasks s))"

text \<open>
  A cancelled job at progress 0 with no suspended invocation of \<^verbatim>\<open>processJob\<close>, and
  such a job that does not wait to be started either.
\<close>

definition zeroed :: "ref \<Rightarrow> sched \<Rightarrow> bool" where
  "zeroed r s =
     (r \<notin> set (workers s) \<and> status (heap s ! r) = Cancelled \<and> progress (heap s ! r) = 0)"

definition settled :: "ref \<Rightarrow> sched \<Rightarrow> bool" where
  "settled r s = (dormant r s \<and> zeroed r s)"

lemma zeroed_cong: "heap s' = heap s \<Longrightarrow> tasks s' = tasks s \<Longrightarrow> zeroed r s' = zeroed r s"
  by (simp add: zeroed_def workers_def)

lemma zeroed_frame [simp]:
  "zeroed r (call c s) = zeroed r s"
  "zeroed r (logError m s) = zeroed r s"
  "zeroed r (reply x s) = zeroed r s"
  "zeroed r (notifyWith r' m s) = zeroed r s"
  "zeroed r (notify r' s) = zeroed r s"
  "zeroed r (startDiscover r' s) = zeroed r s"
  "zeroed r (startExtractor ex e s) = zeroed r s"
  "zeroed r (logThrown w y s) = zeroed r s"
  "zeroed r (processJob_catch m s) = zeroed r s"
  "zeroed r (minimal_catch m s) = zeroed r s"
  "zeroed r (push pr r' s) = zeroed r s"
  by (rule zeroed_cong; simp)+


















lemma settled_frame [simp]:
  "settled r (logError m s) = settled r s"
  "settled r (reply x s) = settled r s"
  by (simp_all add: settled_def)













section \<open>Progress events\<close>

text \<open>
  Claim C7, as stated, fails: \<^verbatim>\<open>cancelJob\<close> changes the status and the progress of a
  processing job and publishes no event, and so does the start of a job
  (\<^verbatim>\<open>job.status = 'processing'\<close>, line 141).
\<close>

theorem event_per_mutation_counterexample:
  "status (heap midExtraction ! 0) = Processing \<and>
   progress (heap midExtraction ! 0) = 60 \<and>
   status (heap cancelledMid ! 0) = Cancelled \<and>
   progress (heap cancelledMid ! 0) = 0 \<and>
   tasks cancelledMid = [Worker 0 AwaitImages] \<and>
   emitted cancelledMid = emitted midExtraction \<and>
   status (heap oneJob ! 0) = Queued \<and>
   status (heap (processJob_start 0 oneJob) ! 0) = Processing \<and>
   emitted (processJob_start 0 oneJob) = emitted oneJob"
  by code_simp

lemma jobEvent_eq:
  "jobEvent j m = jobEvent j' m \<longleftrightarrow>
     jobId j = jobId j' \<and> status j = status j' \<and> progress j = progress j'"
  by (auto simp: jobEvent_def)

lemma setProgress_emitted:
  "r < length (heap s) \<Longrightarrow>
   emitted (setProgress p m r s) =
     (if io s = IOWorks
      then emitted s @ [jobEvent ((heap s ! r)\<lparr>progress := p, message := m\<rparr>) m]
      else emitted s)"
  by (simp add: setProgress_def notify_emitted)

lemma finishJob_emitted:
  "emitted (finishJob lim r s) =
     (if io s = IOWorks then emitted s @ [jobEvent (heap s ! r) (message (heap s ! r))]
      else emitted s)"
  by (simp add: finishJob_def Let_def notify_emitted)

lemma cancelJob_call_emitted [simp]: "emitted (cancelJob_call jid resp s) = emitted s"
  by (simp add: cancelJob_call_def cancelFound_def Let_def split: option.splits)

lemma cancelJob_cont_emitted [simp]: "emitted (cancelJob_cont lim jid r resp s) = emitted s"
  by (simp add: cancelJob_cont_def cancelJob_catch_def Let_def split: result.splits)

text \<open>Every event ever published is a \<^verbatim>\<open>job-update\<close> on the channel of its own job id.\<close>

definition addressed :: "string \<times> string \<times> payload \<Rightarrow> bool" where
  "addressed x = (case x of (room, name, d) \<Rightarrow> room = ''job-'' @ pJobId d \<and> name = ''job-update'')"

definition emittedOk :: "sched \<Rightarrow> bool" where
  "emittedOk s = list_all addressed (emitted s)"

lemma emittedOk_cong: "emitted s' = emitted s \<Longrightarrow> emittedOk s' = emittedOk s"
  by (simp add: emittedOk_def)

lemma emittedOk_frame [simp]:
  "emittedOk (upd_job r f s) = emittedOk s"
  "emittedOk (call c s) = emittedOk s"
  "emittedOk (logError m s) = emittedOk s"
  "emittedOk (reply x s) = emittedOk s"
  "emittedOk (suspend t s) = emittedOk s"
  "emittedOk (startDiscover r s) = emittedOk s"
  "emittedOk (startExtractor ex e s) = emittedOk s"
  "emittedOk (logThrown w y s) = emittedOk s"
  "emittedOk (processJob_catch m s) = emittedOk s"
  "emittedOk (minimal_catch m s) = emittedOk s"
  "emittedOk (completeJob m r s) = emittedOk s"
  "emittedOk (processNextJob lim s) = emittedOk s"
  "emittedOk (push pr r s) = emittedOk s"
  "emittedOk (cancelJob_call jid resp s) = emittedOk s"
  "emittedOk (cancelJob_cont lim jid r resp' s) = emittedOk s"
  by (rule emittedOk_cong; simp)+

lemma emittedOk_notifyWith [simp]: "emittedOk s \<Longrightarrow> emittedOk (notifyWith r m s)"
  by (simp add: emittedOk_def notifyWith_emitted jobEvent_def addressed_def)

lemma emittedOk_notify [simp]: "emittedOk s \<Longrightarrow> emittedOk (notify r s)"
  by (simp add: notify_def)

lemma emittedOk_setProgress [simp]: "emittedOk s \<Longrightarrow> emittedOk (setProgress p m r s)"
  by (simp add: setProgress_def)

lemma emittedOk_finishJob [simp]: "emittedOk s \<Longrightarrow> emittedOk (finishJob lim r s)"
  by (simp add: emittedOk_def finishJob_emitted jobEvent_def addressed_def)

lemma emittedOk_resume_pc: "emittedOk s \<Longrightarrow> emittedOk (snd (resume_pc lim e r pc s))"
  by (cases pc) (auto simp: Let_def split: result.splits list.splits option.splits)

lemma emittedOk_enqueuePending: "emittedOk s \<Longrightarrow> emittedOk (foldl enqueuePending s js)"
proof (induction js arbitrary: s)
  case Nil
  then show ?case by simp
next
  case (Cons j js)
  have "emittedOk (enqueuePending s j)"
    using Cons.prems by (simp add: enqueuePending_def Let_def) (simp add: emittedOk_def)
  then show ?case using Cons.IH by simp
qed

lemma emittedOk_run_task: "emittedOk s \<Longrightarrow> emittedOk (run_task lim env t s)"
proof (cases t)
  case (Worker r pc)
  assume "emittedOk s"
  then have "emittedOk (snd (resume_pc lim (env r) r pc s))" by (rule emittedOk_resume_pc)
  then show ?thesis using Worker
    by (cases "resume_pc lim (env r) r pc s"; cases "fst (resume_pc lim (env r) r pc s)")
       (simp_all add: run_task_def)
qed (auto simp: run_task_def queueJob_cont_def cancelQueued_cont_def cancelUnknown_cont_def
       cancelJob_catch_def init_cont_def emittedOk_enqueuePending Let_def
       split: result.splits option.splits)

lemma emittedOk_step: "emittedOk s \<Longrightarrow> emittedOk (step lim env s ev)"
proof (cases ev)
  case (Resume k)
  assume "emittedOk s"
  then have "emittedOk (takeTask k s)" by (simp add: emittedOk_def takeTask_def)
  then show ?thesis using Resume \<open>emittedOk s\<close>
    by (cases "k < length (tasks s)") (simp_all add: step_Resume emittedOk_run_task, simp add: step_def)
qed (simp_all add: step_def init_call_def queueJob_call_def Let_def, simp_all add: emittedOk_def)

lemma emittedOk_run: "emittedOk s \<Longrightarrow> emittedOk (run lim env s evs)"
  unfolding run_def by (induction evs arbitrary: s) (simp_all add: emittedOk_step)

lemma jobEvent_progress [simp]:
  "jobEvent (j\<lparr>progress := p, message := m'\<rparr>) m = jobEvent (j\<lparr>progress := p\<rparr>) m"
  by (simp add: jobEvent_def)

text \<open>
  The job of \<open>midExtraction\<close> two resumptions earlier: its pipeline waits for the
  content of the first of the two pages (progress 30, message "Extracting content").
\<close>

definition firstPage :: sched where
  "firstPage =
     run 5 (\<lambda>_. twoPages) (initial IOWorks)
       [CallQueueJob (exampleJob ''J1'' Normal) (Returns ()), Resume 0,
        Resume 0, Resume 0, Resume 0, Resume 0]"

text \<open>
  Claim C7, amended. With a working socket server, every progress milestone of
  \<^verbatim>\<open>processJob\<close> (10 before discovery, 90 or 30 after it, one per page, 60, 80) is
  published in the step that sets it, and the completion is published once the store
  has acknowledged it, with what the job holds then. Each of these events is a
  \<^verbatim>\<open>job-update\<close> on the channel \<^verbatim>\<open>job-{jobId}\<close> that carries the job's id, status
  and progress of that moment. Its message is the job's message for the milestones and
  the completion; the event of a page carries a text of its own, "Extracted content
  from k of n pages", which is not written to the job (the job keeps the message it
  had). Every event ever published is a \<^verbatim>\<open>job-update\<close> on the channel \<^verbatim>\<open>job-\<close>
  followed by the job id that its payload carries. The start of a job, the write that
  marks it complete, and \<^verbatim>\<open>cancelJob\<close> publish nothing. Without a socket server
  \<^verbatim>\<open>emitSocketEvent\<close> does nothing, and when the emit throws it only writes a log
  line; what \<^verbatim>\<open>processJob\<close> does next does not depend on the socket server.
\<close>

theorem progress_events_published:
  assumes "io s = IOWorks" and "r < length (heap s)"
  shows "jobEvent j m =
           (''job-'' @ jobId j, ''job-update'',
            \<lparr>pJobId = jobId j, pStatus = status j, pProgress = progress j, pMessage = m\<rparr>) \<and>
         (canResumeJob e = Returns b \<longrightarrow>
            emitted (snd (resume_pc lim e r AwaitCanResume s)) =
              emitted s @ [jobEvent ((heap s ! r)\<lparr>progress := 10\<rparr>) ''Discovering pages''] \<and>
            heap (snd (resume_pc lim e r AwaitCanResume s)) ! r =
              (heap s ! r)\<lparr>progress := 10, message := ''Discovering pages''\<rparr>) \<and>
         (discoverPages e = Returns [] \<longrightarrow>
            emitted (snd (resume_pc lim e r AwaitDiscover s)) =
              emitted s @ [jobEvent ((heap s ! r)\<lparr>progress := 90\<rparr>) ''Saving minimal results''] \<and>
            heap (snd (resume_pc lim e r AwaitDiscover s)) ! r =
              (heap s ! r)\<lparr>progress := 90, message := ''Saving minimal results''\<rparr>) \<and>
         (discoverPages e = Returns ps \<and> ps \<noteq> [] \<longrightarrow>
            emitted (snd (resume_pc lim e r AwaitDiscover s)) =
              emitted s @ [jobEvent ((heap s ! r)\<lparr>progress := 30\<rparr>) ''Extracting content''] \<and>
            heap (snd (resume_pc lim e r AwaitDiscover s)) ! r =
              (heap s ! r)\<lparr>progress := 30, message := ''Extracting content''\<rparr>) \<and>
         (extractPageContent e i = Returns c \<and> Suc i < length (pagesOf e) \<longrightarrow>
            emitted (snd (resume_pc lim e r (AwaitPageContent i) s)) =
              emitted s @
              [jobEvent ((heap s ! r)\<lparr>progress := min (30 + (Suc i * 30) div length (pagesOf e)) 60\<rparr>)
                 (pageMessage (Suc i) (length (pagesOf e)))] \<and>
            heap (snd (resume_pc lim e r (AwaitPageContent i) s)) ! r =
              (heap s ! r)\<lparr>progress := min (30 + (Suc i * 30) div length (pagesOf e)) 60\<rparr>) \<and>
         (extractPageContent e i = Returns c \<and> \<not> Suc i < length (pagesOf e) \<longrightarrow>
            emitted (snd (resume_pc lim e r (AwaitPageContent i) s)) =
              emitted s @
              [jobEvent ((heap s ! r)\<lparr>progress := min (30 + (Suc i * 30) div length (pagesOf e)) 60\<rparr>)
                 (pageMessage (Suc i) (length (pagesOf e))),
               jobEvent ((heap s ! r)\<lparr>progress := 60\<rparr>) ''Extracting detailed information''] \<and>
            heap (snd (resume_pc lim e r (AwaitPageContent i) s)) ! r =
              (heap s ! r)\<lparr>progress := 60, message := ''Extracting detailed information''\<rparr>) \<and>
         emitted (snd (resume_pc lim e r AwaitIsbn s)) =
           emitted s @ [jobEvent ((heap s ! r)\<lparr>progress := 80\<rparr>) ''Building final results''] \<and>
         (domainInfoId e = Some d \<and> d \<noteq> 0 \<longrightarrow>
            heap (snd (resume_pc lim e r AwaitIsbn s)) ! r =
              (heap s ! r)\<lparr>progress := 80, message := ''Building final results''\<rparr>) \<and>
         emitted (completeJob m r s) = emitted s \<and>
         heap (completeJob m r s) ! r =
           (heap s ! r)\<lparr>status := Complete, progress := 100, message := m,
                          completedAt := Some (now s)\<rparr> \<and>
         (updateComplete e = Returns u \<longrightarrow>
            emitted (snd (resume_pc lim e r AwaitUpdateComplete (completeJob m r s))) =
              emitted s @ [jobEvent ((heap s ! r)\<lparr>status := Complete, progress := 100\<rparr>) m] \<and>
            emitted (snd (resume_pc lim e r AwaitUpdateMinimal (completeJob m r s))) =
              emitted s @ [jobEvent ((heap s ! r)\<lparr>status := Complete, progress := 100\<rparr>) m]) \<and>
         (updateComplete e = Returns u \<longrightarrow>
            emitted (snd (resume_pc lim e r AwaitUpdateComplete s)) =
              emitted s @ [jobEvent (heap s ! r) (message (heap s ! r))] \<and>
            emitted (snd (resume_pc lim e r AwaitUpdateMinimal s)) =
              emitted s @ [jobEvent (heap s ! r) (message (heap s ! r))]) \<and>
         emitted (processJob_start r s) = emitted s \<and>
         emitted (cancelJob_call jid resp s) = emitted s \<and>
         emitted (cancelJob_cont lim jid r resp s) = emitted s \<and>
         (\<forall>x \<in> set (emitted (run lim env (initial q) evs)).
            fst x = ''job-'' @ pJobId (snd (snd x)) \<and> fst (snd x) = ''job-update'') \<and>
         emitSocketEvent room ev d' (s\<lparr>io := NoIO\<rparr>) = s\<lparr>io := NoIO\<rparr> \<and>
         emitSocketEvent room ev d' (s\<lparr>io := IOThrows x\<rparr>) =
           logError (''Error emitting socket event: '' @ x) (s\<lparr>io := IOThrows x\<rparr>) \<and>
         fst (resume_pc lim e r pc (s\<lparr>io := q'\<rparr>)) = fst (resume_pc lim e r pc s)"
proof -
  have ev: "\<forall>x \<in> set (emitted (run lim env (initial q) evs)).
      fst x = ''job-'' @ pJobId (snd (snd x)) \<and> fst (snd x) = ''job-update''"
  proof -
    have "emittedOk (initial q)" by (simp add: emittedOk_def initial_def)
    then have "emittedOk (run lim env (initial q) evs)" by (rule emittedOk_run)
    then show ?thesis by (auto simp: emittedOk_def list_all_iff addressed_def)
  qed
  have pages: "emitted (snd (resume_pc lim e r (AwaitPageContent i) s)) =
      emitted s @
      [jobEvent ((heap s ! r)\<lparr>progress := min (30 + (Suc i * 30) div length (pagesOf e)) 60\<rparr>)
         (pageMessage (Suc i) (length (pagesOf e)))] @
      (if Suc i < length (pagesOf e) then []
       else [jobEvent ((heap s ! r)\<lparr>progress := 60\<rparr>) ''Extracting detailed information''])"
    if "extractPageContent e i = Returns c"
    using that assms
    by (simp add: Let_def notifyWith_emitted setProgress_emitted jobEvent_def)
  have pagesJob: "heap (snd (resume_pc lim e r (AwaitPageContent i) s)) ! r =
      (if Suc i < length (pagesOf e)
       then (heap s ! r)\<lparr>progress := min (30 + (Suc i * 30) div length (pagesOf e)) 60\<rparr>
       else (heap s ! r)\<lparr>progress := 60, message := ''Extracting detailed information''\<rparr>)"
    if "extractPageContent e i = Returns c"
    using that assms by (simp add: Let_def)
  have fin: "emitted (snd (resume_pc lim e r AwaitUpdateComplete (completeJob m r s))) =
      emitted s @ [jobEvent ((heap s ! r)\<lparr>status := Complete, progress := 100\<rparr>) m] \<and>
    emitted (snd (resume_pc lim e r AwaitUpdateMinimal (completeJob m r s))) =
      emitted s @ [jobEvent ((heap s ! r)\<lparr>status := Complete, progress := 100\<rparr>) m]"
    if "updateComplete e = Returns u"
    using that assms by (simp add: finishJob_emitted jobEvent_def)
  have steps: "(canResumeJob e = Returns b \<longrightarrow>
        emitted (snd (resume_pc lim e r AwaitCanResume s)) =
          emitted s @ [jobEvent ((heap s ! r)\<lparr>progress := 10\<rparr>) ''Discovering pages''] \<and>
        heap (snd (resume_pc lim e r AwaitCanResume s)) ! r =
          (heap s ! r)\<lparr>progress := 10, message := ''Discovering pages''\<rparr>)"
    "(discoverPages e = Returns [] \<longrightarrow>
        emitted (snd (resume_pc lim e r AwaitDiscover s)) =
          emitted s @ [jobEvent ((heap s ! r)\<lparr>progress := 90\<rparr>) ''Saving minimal results''] \<and>
        heap (snd (resume_pc lim e r AwaitDiscover s)) ! r =
          (heap s ! r)\<lparr>progress := 90, message := ''Saving minimal results''\<rparr>)"
    "(discoverPages e = Returns ps \<and> ps \<noteq> [] \<longrightarrow>
        emitted (snd (resume_pc lim e r AwaitDiscover s)) =
          emitted s @ [jobEvent ((heap s ! r)\<lparr>progress := 30\<rparr>) ''Extracting content''] \<and>
        heap (snd (resume_pc lim e r AwaitDiscover s)) ! r =
          (heap s ! r)\<lparr>progress := 30, message := ''Extracting content''\<rparr>)"
    "emitted (snd (resume_pc lim e r AwaitIsbn s)) =
       emitted s @ [jobEvent ((heap s ! r)\<lparr>progress := 80\<rparr>) ''Building final results'']"
    "(domainInfoId e = Some d \<and> d \<noteq> 0 \<longrightarrow>
        heap (snd (resume_pc lim e r AwaitIsbn s)) ! r =
          (heap s ! r)\<lparr>progress := 80, message := ''Building final results''\<rparr>)"
    using assms
    by (simp_all add: Let_def setProgress_emitted split: option.splits)
  have sw: "emitSocketEvent room ev d' (s\<lparr>io := NoIO\<rparr>) = s\<lparr>io := NoIO\<rparr>"
    "emitSocketEvent room ev d' (s\<lparr>io := IOThrows x\<rparr>) =
       logError (''Error emitting socket event: '' @ x) (s\<lparr>io := IOThrows x\<rparr>)"
    by (simp_all add: emitSocketEvent_def)
  have shape: "jobEvent j m =
      (''job-'' @ jobId j, ''job-update'',
       \<lparr>pJobId = jobId j, pStatus = status j, pProgress = progress j, pMessage = m\<rparr>)"
    by (simp add: jobEvent_def)
  have p1: "extractPageContent e i = Returns c \<and> Suc i < length (pagesOf e) \<longrightarrow>
      emitted (snd (resume_pc lim e r (AwaitPageContent i) s)) =
        emitted s @
        [jobEvent ((heap s ! r)\<lparr>progress := min (30 + (Suc i * 30) div length (pagesOf e)) 60\<rparr>)
           (pageMessage (Suc i) (length (pagesOf e)))] \<and>
      heap (snd (resume_pc lim e r (AwaitPageContent i) s)) ! r =
        (heap s ! r)\<lparr>progress := min (30 + (Suc i * 30) div length (pagesOf e)) 60\<rparr>"
    using pages pagesJob by auto
  have p2: "extractPageContent e i = Returns c \<and> \<not> Suc i < length (pagesOf e) \<longrightarrow>
      emitted (snd (resume_pc lim e r (AwaitPageContent i) s)) =
        emitted s @
        [jobEvent ((heap s ! r)\<lparr>progress := min (30 + (Suc i * 30) div length (pagesOf e)) 60\<rparr>)
           (pageMessage (Suc i) (length (pagesOf e))),
         jobEvent ((heap s ! r)\<lparr>progress := 60\<rparr>) ''Extracting detailed information''] \<and>
      heap (snd (resume_pc lim e r (AwaitPageContent i) s)) ! r =
        (heap s ! r)\<lparr>progress := 60, message := ''Extracting detailed information''\<rparr>"
    using pages pagesJob by auto
  have fin': "updateComplete e = Returns u \<longrightarrow>
      emitted (snd (resume_pc lim e r AwaitUpdateComplete (completeJob m r s))) =
        emitted s @ [jobEvent ((heap s ! r)\<lparr>status := Complete, progress := 100\<rparr>) m] \<and>
      emitted (snd (resume_pc lim e r AwaitUpdateMinimal (completeJob m r s))) =
        emitted s @ [jobEvent ((heap s ! r)\<lparr>status := Complete, progress := 100\<rparr>) m]"
    using fin by blast
  have fin2: "updateComplete e = Returns u \<longrightarrow>
      emitted (snd (resume_pc lim e r AwaitUpdateComplete s)) =
        emitted s @ [jobEvent (heap s ! r) (message (heap s ! r))] \<and>
      emitted (snd (resume_pc lim e r AwaitUpdateMinimal s)) =
        emitted s @ [jobEvent (heap s ! r) (message (heap s ! r))]"
    using assms by (simp add: finishJob_emitted)
  have quiet1: "emitted (completeJob m r s) = emitted s" by simp
  have cj: "heap (completeJob m r s) ! r =
      (heap s ! r)\<lparr>status := Complete, progress := 100, message := m,
                     completedAt := Some (now s)\<rparr>"
    using assms by simp
  have quiet: "emitted (processJob_start r s) = emitted s"
    "emitted (cancelJob_call jid resp s) = emitted s"
    "emitted (cancelJob_cont lim jid r resp s) = emitted s"
    by simp_all
  have ctl: "fst (resume_pc lim e r pc (s\<lparr>io := q'\<rparr>)) = fst (resume_pc lim e r pc s)"
    by (rule resume_pc_control)
  from shape steps(1-3) p1 p2 steps(4,5) quiet1 cj fin' fin2 quiet ev sw ctl show ?thesis
    by (intro conjI) assumption+
qed

theorem progress_events_published_witness:
  "emitted (snd (resume_pc 5 twoPages 0 AwaitIsbn midExtraction)) =
     emitted midExtraction @
     [(''job-J1'', ''job-update'',
       \<lparr>pJobId = ''J1'', pStatus = Processing, pProgress = 80,
        pMessage = ''Building final results''\<rparr>)] \<and>
   emitted (snd (resume_pc 5 twoPages 0 AwaitUpdateComplete
                   (completeJob ''Scrape completed'' 0 midExtraction))) =
     emitted midExtraction @
     [(''job-J1'', ''job-update'',
       \<lparr>pJobId = ''J1'', pStatus = Complete, pProgress = 100,
        pMessage = ''Scrape completed''\<rparr>)] \<and>
   emitted (snd (resume_pc 5 twoPages 0 (AwaitPageContent 1) midExtraction)) =
     emitted midExtraction @
     [(''job-J1'', ''job-update'',
       \<lparr>pJobId = ''J1'', pStatus = Processing, pProgress = 60,
        pMessage = ''Extracted content from 2 of 2 pages''\<rparr>),
      (''job-J1'', ''job-update'',
       \<lparr>pJobId = ''J1'', pStatus = Processing, pProgress = 60,
        pMessage = ''Extracting detailed information''\<rparr>)] \<and>
   tasks firstPage = [Worker 0 (AwaitPageContent 0)] \<and>
   message (heap firstPage ! 0) = ''Extracting content'' \<and>
   emitted (snd (resume_pc 5 twoPages 0 (AwaitPageContent 0) firstPage)) =
     emitted firstPage @
     [(''job-J1'', ''job-update'',
       \<lparr>pJobId = ''J1'', pStatus = Processing, pProgress = 45,
        pMessage = ''Extracted content from 1 of 2 pages''\<rparr>)] \<and>
   progress (heap (snd (resume_pc 5 twoPages 0 (AwaitPageContent 0) firstPage)) ! 0) = 45 \<and>
   message (heap (snd (resume_pc 5 twoPages 0 (AwaitPageContent 0) firstPage)) ! 0) =
     ''Extracting content''"
proof -
  have a: "io midExtraction = IOWorks" "0 < length (heap midExtraction)" by code_simp+
  have a': "io firstPage = IOWorks" "0 < length (heap firstPage)" by code_simp+
  have b: "updateComplete twoPages = Returns ()" "extractPageContent twoPages 1 = Returns (Some ''text'')"
    "extractPageContent twoPages 0 = Returns (Some ''text'')"
    "length (pagesOf twoPages) = 2"
    by (simp_all add: twoPages_def pagesOf_def)
  have c: "jobId (heap midExtraction ! 0) = ''J1''" "status (heap midExtraction ! 0) = Processing"
    by code_simp+
  have c': "jobId (heap firstPage ! 0) = ''J1''" "status (heap firstPage ! 0) = Processing"
    "message (heap firstPage ! 0) = ''Extracting content''"
    "tasks firstPage = [Worker 0 (AwaitPageContent 0)]"
    by code_simp+
  have d: "pageMessage (Suc (Suc 0)) 2 = ''Extracted content from 2 of 2 pages''"
    "pageMessage (Suc 0) 2 = ''Extracted content from 1 of 2 pages''"
    by code_simp+
  from progress_events_published [OF a, where e = twoPages and lim = 5 and i = 1
      and c = "Some ''text''" and m = "''Scrape completed''" and u = "()"]
  have 1: "emitted (snd (resume_pc 5 twoPages 0 AwaitIsbn midExtraction)) =
     emitted midExtraction @
     [(''job-J1'', ''job-update'',
       \<lparr>pJobId = ''J1'', pStatus = Processing, pProgress = 80,
        pMessage = ''Building final results''\<rparr>)] \<and>
   emitted (snd (resume_pc 5 twoPages 0 AwaitUpdateComplete
                   (completeJob ''Scrape completed'' 0 midExtraction))) =
     emitted midExtraction @
     [(''job-J1'', ''job-update'',
       \<lparr>pJobId = ''J1'', pStatus = Complete, pProgress = 100,
        pMessage = ''Scrape completed''\<rparr>)] \<and>
   emitted (snd (resume_pc 5 twoPages 0 (AwaitPageContent 1) midExtraction)) =
     emitted midExtraction @
     [(''job-J1'', ''job-update'',
       \<lparr>pJobId = ''J1'', pStatus = Processing, pProgress = 60,
        pMessage = ''Extracted content from 2 of 2 pages''\<rparr>),
      (''job-J1'', ''job-update'',
       \<lparr>pJobId = ''J1'', pStatus = Processing, pProgress = 60,
        pMessage = ''Extracting detailed information''\<rparr>)]"
    using b c d by (simp del: resume_pc.simps add: jobEvent_def)
  from progress_events_published [OF a', where e = twoPages and lim = 5 and i = 0
      and c = "Some ''text''"]
  have 2: "emitted (snd (resume_pc 5 twoPages 0 (AwaitPageContent 0) firstPage)) =
     emitted firstPage @
     [(''job-J1'', ''job-update'',
       \<lparr>pJobId = ''J1'', pStatus = Processing, pProgress = 45,
        pMessage = ''Extracted content from 1 of 2 pages''\<rparr>)] \<and>
     progress (heap (snd (resume_pc 5 twoPages 0 (AwaitPageContent 0) firstPage)) ! 0) = 45 \<and>
     message (heap (snd (resume_pc 5 twoPages 0 (AwaitPageContent 0) firstPage)) ! 0) =
       ''Extracting content''"
    using b c' d by (simp del: resume_pc.simps add: jobEvent_def)
  from 1 2 c' show ?thesis by simp
qed

end
